theory Spec2Isabelle
  imports Main "HOL-Library.Sublist"
begin

section \<open>The step runner of \<^verbatim>\<open>src/src/Runner.ts\<close>\<close>

subsection \<open>Flows\<close>

text \<open>
  \<^verbatim>\<open>UserFlow\<close> of \<^verbatim>\<open>Schema.ts\<close>: a title, two optional attributes and the ordered
  steps. The runner never inspects a step; it only hands \<^verbatim>\<open>steps[nextStep]\<close> to the
  extension, so the type of steps is a parameter here.
\<close>

record 's UserFlow =
  title :: string
  timeout :: "int option"
  selectorAttribute :: "string option"
  steps :: "'s list"

subsection \<open>The extension (backend)\<close>

text \<open>
  Every operation of a \<^verbatim>\<open>RunnerExtension\<close> is asynchronous and is awaited by the
  runner. An awaited operation is a function on the state \<open>'w\<close> of whatever the
  extension controls: it returns that state as the operation leaves it, together with
  \<open>None\<close> when the promise is fulfilled and \<open>Some e\<close> when it is rejected with \<open>e\<close>.
  \<^verbatim>\<open>runStep\<close> is mandatory; the four hooks are optional members (called with \<^verbatim>\<open>?.\<close>).
\<close>

type_synonym ('w, 'e) operation = "'w \<Rightarrow> 'e option \<times> 'w"

record ('s, 'w, 'e) RunnerExtension =
  beforeAllSteps :: "('s UserFlow \<Rightarrow> ('w, 'e) operation) option"
  beforeEachStep :: "('s \<Rightarrow> 's UserFlow \<Rightarrow> ('w, 'e) operation) option"
  runStep :: "'s \<Rightarrow> 's UserFlow \<Rightarrow> ('w, 'e) operation"
  afterEachStep :: "('s \<Rightarrow> 's UserFlow \<Rightarrow> ('w, 'e) operation) option"
  afterAllSteps :: "('s UserFlow \<Rightarrow> ('w, 'e) operation) option"

text \<open>
  The calls a runner issues are what a caller can observe of it. The model keeps them
  in a log, in the order in which they are issued; the flow argument is always the
  runner's own flow and is left out of the entry.
\<close>

datatype 's call =
  BeforeAllSteps
  | BeforeEachStep 's
  | RunStep 's
  | AfterEachStep 's
  | AfterAllSteps

text \<open>The state threaded through one \<^verbatim>\<open>run\<close>: the extension's state and the log.\<close>

type_synonym ('s, 'w) exec = "'w \<times> 's call list"

text \<open>\<^verbatim>\<open>await f(...)\<close>: the call is logged, then performed on the current state.\<close>

definition await :: "'s call \<Rightarrow> ('w, 'e) operation \<Rightarrow> ('s, 'w) exec \<Rightarrow> 'e option \<times> ('s, 'w) exec" where
  "await c f st = (case f (fst st) of (r, w') \<Rightarrow> (r, (w', snd st @ [c])))"

text \<open>\<^verbatim>\<open>await f?.(...)\<close>: nothing happens when the member is absent.\<close>

definition await_opt ::
  "'s call \<Rightarrow> ('w, 'e) operation option \<Rightarrow> ('s, 'w) exec \<Rightarrow> 'e option \<times> ('s, 'w) exec" where
  "await_opt c fo st = (case fo of None \<Rightarrow> (None, st) | Some f \<Rightarrow> await c f st)"

subsection \<open>The runner\<close>

record ('s, 'w, 'e) Runner =
  flow :: "'s UserFlow"
  extension :: "('s, 'w, 'e) RunnerExtension"
  nextStep :: nat

text \<open>The constructor: \<^verbatim>\<open>#nextStep = 0\<close>.\<close>

definition new_Runner :: "'s UserFlow \<Rightarrow> ('s, 'w, 'e) RunnerExtension \<Rightarrow> ('s, 'w, 'e) Runner" where
  "new_Runner fl ext = \<lparr>flow = fl, extension = ext, nextStep = 0\<rparr>"

text \<open>
  The body of the \<^verbatim>\<open>while\<close> loop up to, and without, \<^verbatim>\<open>this.#nextStep++\<close>: three
  awaited calls on the same step. A rejected call ends the body at once.
\<close>

definition run_body ::
  "('s, 'w, 'e) RunnerExtension \<Rightarrow> 's UserFlow \<Rightarrow> 's \<Rightarrow> ('s, 'w) exec \<Rightarrow> 'e option \<times> ('s, 'w) exec" where
  "run_body ext fl s st =
     (case await_opt (BeforeEachStep s) (map_option (\<lambda>h. h s fl) (beforeEachStep ext)) st of
        (Some e, st1) \<Rightarrow> (Some e, st1)
      | (None, st1) \<Rightarrow>
          (case await (RunStep s) (runStep ext s fl) st1 of
             (Some e, st2) \<Rightarrow> (Some e, st2)
           | (None, st2) \<Rightarrow>
               await_opt (AfterEachStep s) (map_option (\<lambda>h. h s fl) (afterEachStep ext)) st2))"

text \<open>
  The \<^verbatim>\<open>while\<close> loop. \<open>n\<close> is \<^verbatim>\<open>this.#nextStep\<close>; the result carries the value it
  has when the loop is left, either by its condition or by a rejected call (then the
  increment of that iteration has not happened).
\<close>

function run_loop ::
  "('s, 'w, 'e) RunnerExtension \<Rightarrow> 's UserFlow \<Rightarrow> int \<Rightarrow> nat \<Rightarrow> ('s, 'w) exec
     \<Rightarrow> 'e option \<times> nat \<times> ('s, 'w) exec" where
  "run_loop ext fl stepIdx n st =
     (if int n < stepIdx \<and> n < length (steps fl) then
        (case run_body ext fl (steps fl ! n) st of
           (Some e, st') \<Rightarrow> (Some e, n, st')
         | (None, st') \<Rightarrow> run_loop ext fl stepIdx (Suc n) st')
      else (None, n, st))"
  by pat_completeness auto
termination
  by (relation "measure (\<lambda>(ext, fl, stepIdx, n, st). length (steps fl) - n)") auto

text \<open>
  What a call of \<^verbatim>\<open>run\<close> does to its caller: it returns a boolean or throws. Together
  with it the model gives the runner, the extension's state and the log of calls as
  the invocation leaves them.
\<close>

datatype 'e outcome = Returned bool | Threw 'e

type_synonym ('s, 'w, 'e) run_result =
  "'e outcome \<times> ('s, 'w, 'e) Runner \<times> 'w \<times> 's call list"

text \<open>
  \<^verbatim>\<open>Runner.run(stepIdx?)\<close>. \<open>None\<close> is \<^verbatim>\<open>undefined\<close>, replaced by the number of steps;
  an index that is given is an integer, which may be negative or beyond the last step.
  The log starts empty, so it holds the calls of this invocation only. When
  \<^verbatim>\<open>beforeAllSteps\<close> is rejected the cursor has not been touched; when a call of the
  loop or \<^verbatim>\<open>afterAllSteps\<close> is rejected the cursor is where the loop left it.
\<close>

definition run ::
  "('s, 'w, 'e) Runner \<Rightarrow> int option \<Rightarrow> 'w \<Rightarrow> ('s, 'w, 'e) run_result" where
  "run r stepIdx w =
     (let fl = flow r; ext = extension r;
          idx = (case stepIdx of None \<Rightarrow> int (length (steps fl)) | Some k \<Rightarrow> k)
      in case (if nextStep r = 0
               then await_opt BeforeAllSteps (map_option (\<lambda>h. h fl) (beforeAllSteps ext)) (w, [])
               else (None, (w, []))) of
           (Some e, (w1, tr1)) \<Rightarrow> (Threw e, r, w1, tr1)
         | (None, st1) \<Rightarrow>
             (case run_loop ext fl idx (nextStep r) st1 of
                (Some e, n, (w2, tr2)) \<Rightarrow> (Threw e, r\<lparr>nextStep := n\<rparr>, w2, tr2)
              | (None, n, st2) \<Rightarrow>
                  if n \<ge> length (steps fl) then
                    (case await_opt AfterAllSteps (map_option (\<lambda>h. h fl) (afterAllSteps ext)) st2 of
                       (Some e, (w3, tr3)) \<Rightarrow> (Threw e, r\<lparr>nextStep := n\<rparr>, w3, tr3)
                     | (None, (w3, tr3)) \<Rightarrow> (Returned True, r\<lparr>nextStep := n\<rparr>, w3, tr3))
                  else (Returned False, r\<lparr>nextStep := n\<rparr>, fst st2, snd st2)))"


subsection \<open>Reading a log\<close>

text \<open>The calls of one complete loop iteration on step \<open>s\<close>, absent hooks left out.\<close>

definition step_calls :: "('s, 'w, 'e) RunnerExtension \<Rightarrow> 's \<Rightarrow> 's call list" where
  "step_calls ext s =
     (if beforeEachStep ext = None then [] else [BeforeEachStep s]) @ [RunStep s] @
     (if afterEachStep ext = None then [] else [AfterEachStep s])"

definition before_all_calls :: "('s, 'w, 'e) RunnerExtension \<Rightarrow> 's call list" where
  "before_all_calls ext = (if beforeAllSteps ext = None then [] else [BeforeAllSteps])"

definition after_all_calls :: "('s, 'w, 'e) RunnerExtension \<Rightarrow> 's call list" where
  "after_all_calls ext = (if afterAllSteps ext = None then [] else [AfterAllSteps])"

text \<open>The steps with indices in \<open>[i, j)\<close>.\<close>

definition steps_between :: "'s UserFlow \<Rightarrow> nat \<Rightarrow> nat \<Rightarrow> 's list" where
  "steps_between fl i j = take (j - i) (drop i (steps fl))"

text \<open>The log of a run that completes the flow from a fresh runner.\<close>

definition full_log :: "('s, 'w, 'e) RunnerExtension \<Rightarrow> 's UserFlow \<Rightarrow> 's call list" where
  "full_log ext fl =
     before_all_calls ext @ concat (map (step_calls ext) (steps fl)) @ after_all_calls ext"

text \<open>The arguments of the \<^verbatim>\<open>runStep\<close> calls (and of the per-step hooks) in a log, in order.\<close>

fun runStep_arg :: "'s call \<Rightarrow> 's list" where
  "runStep_arg (RunStep s) = [s]"
| "runStep_arg _ = []"

fun beforeEachStep_arg :: "'s call \<Rightarrow> 's list" where
  "beforeEachStep_arg (BeforeEachStep s) = [s]"
| "beforeEachStep_arg _ = []"

fun afterEachStep_arg :: "'s call \<Rightarrow> 's list" where
  "afterEachStep_arg (AfterEachStep s) = [s]"
| "afterEachStep_arg _ = []"

definition runStep_calls :: "'s call list \<Rightarrow> 's list" where
  "runStep_calls tr = concat (map runStep_arg tr)"

definition beforeEachStep_calls :: "'s call list \<Rightarrow> 's list" where
  "beforeEachStep_calls tr = concat (map beforeEachStep_arg tr)"

definition afterEachStep_calls :: "'s call list \<Rightarrow> 's list" where
  "afterEachStep_calls tr = concat (map afterEachStep_arg tr)"

text \<open>
  Performing the calls of a log one after the other, each on the state the one before
  it left, up to the first rejection. A log produced by \<^verbatim>\<open>run\<close> replays to the very
  outcome and state of that run (\<open>run_replay\<close> below): every call was awaited to
  completion before the next one was issued.
\<close>

definition perform ::
  "('s, 'w, 'e) RunnerExtension \<Rightarrow> 's UserFlow \<Rightarrow> 's call \<Rightarrow> ('w, 'e) operation" where
  "perform ext fl c =
     (case c of
        BeforeAllSteps \<Rightarrow> (case beforeAllSteps ext of None \<Rightarrow> Pair None | Some h \<Rightarrow> h fl)
      | BeforeEachStep s \<Rightarrow> (case beforeEachStep ext of None \<Rightarrow> Pair None | Some h \<Rightarrow> h s fl)
      | RunStep s \<Rightarrow> runStep ext s fl
      | AfterEachStep s \<Rightarrow> (case afterEachStep ext of None \<Rightarrow> Pair None | Some h \<Rightarrow> h s fl)
      | AfterAllSteps \<Rightarrow> (case afterAllSteps ext of None \<Rightarrow> Pair None | Some h \<Rightarrow> h fl))"

fun replay ::
  "('s, 'w, 'e) RunnerExtension \<Rightarrow> 's UserFlow \<Rightarrow> 's call list \<Rightarrow> ('w, 'e) operation" where
  "replay ext fl [] w = (None, w)"
| "replay ext fl (c # cs) w =
     (case perform ext fl c w of
        (Some e, w') \<Rightarrow> (Some e, w')
      | (None, w') \<Rightarrow> replay ext fl cs w')"

text \<open>An extension none of whose operations is ever rejected.\<close>

definition never_fails :: "('s, 'w, 'e) RunnerExtension \<Rightarrow> bool" where
  "never_fails ext \<longleftrightarrow> (\<forall>fl c w. fst (perform ext fl c w) = None)"

subsection \<open>What one invocation leaves behind\<close>

text \<open>The bound of the loop: \<^verbatim>\<open>stepIdx\<close> after the default has been filled in.\<close>

definition upTo :: "('s, 'w, 'e) Runner \<Rightarrow> int option \<Rightarrow> int" where
  "upTo r stepIdx = (case stepIdx of None \<Rightarrow> int (length (steps (flow r))) | Some k \<Rightarrow> k)"

text \<open>The cursor after a loop that no rejection cuts short.\<close>

definition cursor_after :: "('s, 'w, 'e) Runner \<Rightarrow> int option \<Rightarrow> nat" where
  "cursor_after r stepIdx = max (nextStep r) (min (nat (upTo r stepIdx)) (length (steps (flow r))))"

text \<open>The calls before the loop, and the calls of the complete iterations from the cursor up to \<open>n'\<close>.\<close>

definition entry_calls :: "('s, 'w, 'e) Runner \<Rightarrow> 's call list" where
  "entry_calls r = (if nextStep r = 0 then before_all_calls (extension r) else [])"

definition loop_calls :: "('s, 'w, 'e) Runner \<Rightarrow> nat \<Rightarrow> 's call list" where
  "loop_calls r n' =
     concat (map (step_calls (extension r)) (steps_between (flow r) (nextStep r) n'))"


text \<open>
  What the loop leaves, from cursor \<open>n\<close>, state \<open>w\<close> and log \<open>tr\<close>: complete
  iterations for the steps in \<open>[n, n')\<close> and then, if a call was rejected, a non-empty
  part of the iteration of step \<open>n'\<close> that ends with the rejected call.
\<close>

definition loop_post ::
  "('s, 'w, 'e) RunnerExtension \<Rightarrow> 's UserFlow \<Rightarrow> int \<Rightarrow> nat \<Rightarrow> 'w \<Rightarrow> 's call list \<Rightarrow>
     'e option \<Rightarrow> nat \<Rightarrow> 'w \<Rightarrow> 's call list \<Rightarrow> 's call list \<Rightarrow> bool" where
  "loop_post ext fl k n w tr r n' w' tr' part \<longleftrightarrow>
     n \<le> n' \<and>
     tr' = tr @ concat (map (step_calls ext) (steps_between fl n n')) @ part \<and>
     replay ext fl (concat (map (step_calls ext) (steps_between fl n n')) @ part) w = (r, w') \<and>
     (case r of
        None \<Rightarrow> part = [] \<and> n' = max n (min (nat k) (length (steps fl)))
      | Some e \<Rightarrow> n' < length (steps fl) \<and> int n' < k \<and> part \<noteq> [] \<and>
          prefix part (step_calls ext (steps fl ! n')))"

text \<open>The first call of the iteration on step \<open>s\<close>.\<close>

definition first_call :: "('s, 'w, 'e) RunnerExtension \<Rightarrow> 's \<Rightarrow> 's call" where
  "first_call ext s = (if beforeEachStep ext = None then RunStep s else BeforeEachStep s)"

subsection \<open>What an invocation does, from what the extension does\<close>

text \<open>
  Of a sequence of calls to be made one after the other from the state \<open>w\<close>, the calls
  that are issued: those up to and including the first rejected one.
\<close>

fun issued ::
  "('s, 'w, 'e) RunnerExtension \<Rightarrow> 's UserFlow \<Rightarrow> 's call list \<Rightarrow> 'w \<Rightarrow> 's call list" where
  "issued ext fl [] w = []"
| "issued ext fl (c # cs) w =
     (case perform ext fl c w of
        (Some e, w') \<Rightarrow> [c]
      | (None, w') \<Rightarrow> c # issued ext fl cs w')"

text \<open>The number of leading steps of \<open>ss\<close> whose iteration goes through without a rejection.\<close>

fun completed ::
  "('s, 'w, 'e) RunnerExtension \<Rightarrow> 's UserFlow \<Rightarrow> 's list \<Rightarrow> 'w \<Rightarrow> nat" where
  "completed ext fl [] w = 0"
| "completed ext fl (s # ss) w =
     (case replay ext fl (step_calls ext s) w of
        (Some e, w') \<Rightarrow> 0
      | (None, w') \<Rightarrow> Suc (completed ext fl ss w'))"

text \<open>
  The calls an invocation \<^verbatim>\<open>run(stepIdx)\<close> makes when none is rejected: those before the
  loop, the iterations up to the bound, and \<^verbatim>\<open>afterAllSteps\<close> when the bound is the end
  of the flow.
\<close>

definition run_plan :: "('s, 'w, 'e) Runner \<Rightarrow> int option \<Rightarrow> 's call list" where
  "run_plan r k =
     entry_calls r @ loop_calls r (cursor_after r k) @
     (if length (steps (flow r)) \<le> cursor_after r k then after_all_calls (extension r) else [])"

text \<open>
  The cursor an invocation leaves: untouched when \<^verbatim>\<open>beforeAllSteps\<close> is rejected, and
  otherwise advanced by the number of iterations that went through.
\<close>

definition cursor_reached :: "('s, 'w, 'e) Runner \<Rightarrow> int option \<Rightarrow> 'w \<Rightarrow> nat" where
  "cursor_reached r k w =
     (case replay (extension r) (flow r) (entry_calls r) w of
        (Some e, w1) \<Rightarrow> nextStep r
      | (None, w1) \<Rightarrow>
          nextStep r +
          completed (extension r) (flow r)
            (steps_between (flow r) (nextStep r) (cursor_after r k)) w1)"

text \<open>The outcome when the calls end with the rejection \<open>x\<close>, \<open>b\<close> being the value to return.\<close>

definition outcome_of :: "'e option \<Rightarrow> bool \<Rightarrow> 'e outcome" where
  "outcome_of x b = (case x of None \<Rightarrow> Returned b | Some e \<Rightarrow> Threw e)"

subsection \<open>Sequences of invocations\<close>

text \<open>
  A caller invoking \<^verbatim>\<open>run\<close> on one runner with the arguments \<open>ks\<close>, one after the
  other, going on after an invocation that threw. Of every invocation the list keeps
  the cursor at entry, the outcome, the log and the cursor at exit.
\<close>

type_synonym ('s, 'e) invocation = "nat \<times> 'e outcome \<times> 's call list \<times> nat"

fun runs ::
  "('s, 'w, 'e) Runner \<Rightarrow> int option list \<Rightarrow> 'w \<Rightarrow> ('s, 'e) invocation list" where
  "runs r [] w = []"
| "runs r (k # ks) w =
     (case run r k w of
        (out, r', w', tr) \<Rightarrow> (nextStep r, out, tr, nextStep r') # runs r' ks w')"

text \<open>All the calls of a sequence of invocations, in order.\<close>

fun calls_of :: "('s, 'e) invocation list \<Rightarrow> 's call list" where
  "calls_of [] = []"
| "calls_of ((c, out, tr, c') # rest) = tr @ calls_of rest"

subsection \<open>Extensions and a flow to run the definitions on\<close>

text \<open>
  An extension with every hook, whose state counts the calls it has completed; and
  one whose \<^verbatim>\<open>runStep\<close> is rejected on the step \<open>''click''\<close>.
\<close>

definition counting_extension :: "(string, nat, string) RunnerExtension" where
  "counting_extension =
     \<lparr>beforeAllSteps = Some (\<lambda>fl w. (None, Suc w)),
      beforeEachStep = Some (\<lambda>s fl w. (None, Suc w)),
      runStep = (\<lambda>s fl w. (None, Suc w)),
      afterEachStep = Some (\<lambda>s fl w. (None, Suc w)),
      afterAllSteps = Some (\<lambda>fl w. (None, Suc w))\<rparr>"




definition failing_afterAll_extension :: "(string, nat, string) RunnerExtension" where
  "failing_afterAll_extension =
     counting_extension\<lparr>afterAllSteps := Some (\<lambda>fl w. (Some ''browser closed'', w))\<rparr>"

definition demo_flow :: "string UserFlow" where
  "demo_flow =
     \<lparr>title = ''demo'', timeout = None, selectorAttribute = None,
      steps = [''navigate'', ''click'', ''close'']\<rparr>"

section \<open>Import resolution: \<^verbatim>\<open>importSteps\<close> of \<^verbatim>\<open>src/src/Runner.ts\<close>\<close>

subsection \<open>Values\<close>

text \<open>
  The steps of an \<^verbatim>\<open>ExtandableUserFlow\<close> and whatever \<^verbatim>\<open>JSON.parse\<close> returns are
  JavaScript values built from JSON. An object is the list of its properties, looked
  up by name (a parsed object has every name once). Numbers are payload that the
  resolver never reads.
\<close>

datatype json =
  JNull
  | JBool bool
  | JNum int
  | JStr string
  | JArr "json list"
  | JObj "(string \<times> json) list"

text \<open>
  Reading the property \<open>k\<close> of a value, for the names the resolver reads (\<^verbatim>\<open>type\<close>,
  \<^verbatim>\<open>from\<close>, \<^verbatim>\<open>target\<close>, \<^verbatim>\<open>steps\<close>): \<open>None\<close> is \<^verbatim>\<open>undefined\<close>. Only objects have such
  properties.
\<close>

fun field :: "string \<Rightarrow> json \<Rightarrow> json option" where
  "field k (JObj kvs) = map_of kvs k"
| "field k _ = None"

text \<open>
  The element type \<^verbatim>\<open>ImportSteps | Step\<close> of \<^verbatim>\<open>ExtandableUserFlow.steps\<close>: an object
  whose \<^verbatim>\<open>type\<close> is a string and, when that string is \<^verbatim>\<open>'import'\<close>, whose \<^verbatim>\<open>from\<close> and
  \<^verbatim>\<open>target\<close> are strings. On elements of this type the comparisons \<^verbatim>\<open>!=\<close> and
  \<^verbatim>\<open>switch\<close> of the source are comparisons of strings, as modelled below.
\<close>

fun is_string :: "json option \<Rightarrow> bool" where
  "is_string (Some (JStr s)) = True"
| "is_string _ = False"

fun is_ExtStep :: "json \<Rightarrow> bool" where
  "is_ExtStep (JObj kvs) =
     (is_string (map_of kvs ''type'') \<and>
      (map_of kvs ''type'' \<noteq> Some (JStr ''import'') \<or>
       is_string (map_of kvs ''from'') \<and> is_string (map_of kvs ''target'')))"
| "is_ExtStep _ = False"

text \<open>The import marker: \<^verbatim>\<open>step.type\<close> is \<^verbatim>\<open>'import'\<close>.\<close>

definition is_import :: "json \<Rightarrow> bool" where
  "is_import step \<longleftrightarrow> field ''type'' step = Some (JStr ''import'')"

subsection \<open>The file system and the JSON parser\<close>

text \<open>
  \<^verbatim>\<open>readFile(target, 'utf-8')\<close> and \<^verbatim>\<open>JSON.parse\<close> are not code of the repository; the
  model takes them as parameters. \<^verbatim>\<open>readFile\<close> receives the value of \<^verbatim>\<open>target\<close> and
  gives the text of the file, or the message of its rejection; \<^verbatim>\<open>JSON.parse\<close> gives
  the parsed value, or the message of its \<^verbatim>\<open>SyntaxError\<close>. The files do not change
  while a flow is resolved.
\<close>

record env =
  readFile :: "json option \<Rightarrow> string + string"
  JSON_parse :: "string \<Rightarrow> string + json"

subsection \<open>Errors\<close>

text \<open>
  What the \<^verbatim>\<open>try\<close> block can throw: the rejection of \<^verbatim>\<open>readFile\<close>, the \<^verbatim>\<open>SyntaxError\<close>
  of \<^verbatim>\<open>JSON.parse\<close>, the \<^verbatim>\<open>TypeError\<close> of \<^verbatim>\<open>'steps' in jsonFile\<close> when the parsed
  value is not an object, the \<^verbatim>\<open>Error('No steps found in target: ...')\<close> of the source,
  and the \<^verbatim>\<open>TypeError\<close> of spreading a \<^verbatim>\<open>steps\<close> that is not iterable.
\<close>

datatype cause =
  ReadFileError string
  | SyntaxError string
  | InOperatorTypeError
  | NoStepsFound "json option"
  | NotIterable

text \<open>
  The two errors \<^verbatim>\<open>importSteps\<close> throws. The source throws plain \<^verbatim>\<open>Error\<close> objects told
  apart by their messages: \<open>ImportError target c\<close> is the one of the \<^verbatim>\<open>catch\<close> block,
  \<^verbatim>\<open>Error(`Error reading file: ${target}\n${error}`)\<close>, which carries the target and
  the caught error \<open>c\<close>; \<open>UnsupportedSourceError from\<close> is the one of the \<^verbatim>\<open>default\<close>
  case, \<^verbatim>\<open>Error(`Adding steps from "${from}" is not supported`)\<close>.
\<close>

datatype error =
  ImportError "json option" cause
  | UnsupportedSourceError "json option"

subsection \<open>The resolver\<close>

text \<open>
  \<^verbatim>\<open>'steps' in jsonFile\<close>: a \<^verbatim>\<open>TypeError\<close> (\<open>None\<close>) unless the right operand is an
  object; an array is an object without such a property.
\<close>

fun has_steps :: "json \<Rightarrow> bool option" where
  "has_steps (JObj kvs) = Some (map_of kvs ''steps'' \<noteq> None)"
| "has_steps (JArr xs) = Some False"
| "has_steps _ = None"

text \<open>
  \<^verbatim>\<open>...jsonFile.steps\<close>: the elements of an array, the characters of a string, and a
  \<^verbatim>\<open>TypeError\<close> (\<open>None\<close>) for a value that is not iterable.
\<close>

fun spread :: "json option \<Rightarrow> json list option" where
  "spread (Some (JArr xs)) = Some xs"
| "spread (Some (JStr s)) = Some (map (\<lambda>c. JStr [c]) s)"
| "spread _ = None"

text \<open>The \<^verbatim>\<open>try\<close> block: the steps to push, or what it throws.\<close>

definition try_block :: "env \<Rightarrow> json option \<Rightarrow> cause + json list" where
  "try_block e target =
     (case readFile e target of
        Inl msg \<Rightarrow> Inl (ReadFileError msg)
      | Inr file \<Rightarrow>
          (case JSON_parse e file of
             Inl msg \<Rightarrow> Inl (SyntaxError msg)
           | Inr jsonFile \<Rightarrow>
               (case has_steps jsonFile of
                  None \<Rightarrow> Inl InOperatorTypeError
                | Some False \<Rightarrow> Inl (NoStepsFound target)
                | Some True \<Rightarrow>
                    (case spread (field ''steps'' jsonFile) of
                       None \<Rightarrow> Inl NotIterable
                     | Some xs \<Rightarrow> Inr xs))))"

text \<open>
  The body of the \<^verbatim>\<open>for\<close> loop on one element: the steps it pushes, or the error it
  throws.
\<close>

definition importStep :: "env \<Rightarrow> json \<Rightarrow> error + json list" where
  "importStep e step =
     (if field ''type'' step \<noteq> Some (JStr ''import'') then Inr [step]
      else
        let from = field ''from'' step; target = field ''target'' step
        in if from = Some (JStr ''file'') then
             (case try_block e target of
                Inl c \<Rightarrow> Inl (ImportError target c)
              | Inr xs \<Rightarrow> Inr xs)
           else Inl (UnsupportedSourceError from))"

text \<open>The \<^verbatim>\<open>for\<close> loop; \<open>acc\<close> is the local array \<^verbatim>\<open>steps\<close>.\<close>

fun import_loop :: "env \<Rightarrow> json list \<Rightarrow> json list \<Rightarrow> error + json list" where
  "import_loop e [] acc = Inr acc"
| "import_loop e (step # rest) acc =
     (case importStep e step of
        Inl err \<Rightarrow> Inl err
      | Inr xs \<Rightarrow> import_loop e rest (acc @ xs))"

text \<open>\<^verbatim>\<open>importSteps\<close>: the given flow with the new steps, \<^verbatim>\<open>{...givenFlow, steps}\<close>.\<close>

definition importSteps :: "env \<Rightarrow> json UserFlow \<Rightarrow> error + json UserFlow" where
  "importSteps e givenFlow =
     (case import_loop e (steps givenFlow) [] of
        Inl err \<Rightarrow> Inl err
      | Inr st \<Rightarrow> Inr (givenFlow\<lparr>steps := st\<rparr>))"

text \<open>
  \<^verbatim>\<open>createRunner\<close> with the extension given (without one the source launches a
  browser, which is outside the model): the flow is resolved when a step is an import
  marker.
\<close>

definition createRunner ::
  "env \<Rightarrow> json UserFlow \<Rightarrow> (json, 'w, 'e) RunnerExtension \<Rightarrow> error + (json, 'w, 'e) Runner" where
  "createRunner e fl ext =
     (if list_ex is_import (steps fl) then
        (case importSteps e fl of
           Inl err \<Rightarrow> Inl err
         | Inr fl' \<Rightarrow> Inr (new_Runner fl' ext))
      else Inr (new_Runner fl ext))"

text \<open>What the element \<open>step\<close> of a flow contributes to a resolved flow.\<close>

definition spliced :: "env \<Rightarrow> json \<Rightarrow> json list" where
  "spliced e step = (case importStep e step of Inl err \<Rightarrow> [] | Inr xs \<Rightarrow> xs)"

subsection \<open>Files and flows to run the resolver on\<close>

definition import_marker :: "string \<Rightarrow> string \<Rightarrow> json" where
  "import_marker src tgt =
     JObj [(''type'', JStr ''import''), (''from'', JStr src), (''target'', JStr tgt)]"

definition step_A :: json where
  "step_A = JObj [(''type'', JStr ''navigate''), (''url'', JStr ''https://example.org'')]"

definition step_B :: json where
  "step_B = JObj [(''type'', JStr ''close'')]"

definition step_X :: json where
  "step_X = JObj [(''type'', JStr ''click''), (''selectors'', JArr [JStr ''#login''])]"

definition step_Y :: json where
  "step_Y = JObj [(''type'', JStr ''change''), (''value'', JStr ''secret'')]"

text \<open>
  Three files: \<open>login.json\<close> holds \<^verbatim>\<open>{"steps": [X, Y]}\<close>, \<open>nested.json\<close> holds a
  \<^verbatim>\<open>steps\<close> array whose only element is an import marker, \<open>title.json\<close> holds an object
  without \<^verbatim>\<open>steps\<close>. The texts are opaque; the parser maps each to the value it stands
  for.
\<close>

definition demo_env :: env where
  "demo_env =
     \<lparr>readFile = (\<lambda>p.
        if p = Some (JStr ''login.json'') then Inr ''<login>''
        else if p = Some (JStr ''nested.json'') then Inr ''<nested>''
        else if p = Some (JStr ''title.json'') then Inr ''<title>''
        else if p = Some (JStr ''broken.json'') then Inr ''<broken>''
        else Inl ''ENOENT''),
      JSON_parse = (\<lambda>t.
        if t = ''<login>'' then Inr (JObj [(''title'', JStr ''login''), (''steps'', JArr [step_X, step_Y])])
        else if t = ''<nested>'' then Inr (JObj [(''steps'', JArr [import_marker ''file'' ''login.json''])])
        else if t = ''<title>'' then Inr (JObj [(''title'', JStr ''no steps here'')])
        else Inl ''Unexpected token'')\<rparr>"

definition flow_of :: "json list \<Rightarrow> json UserFlow" where
  "flow_of ss = \<lparr>title = ''recording'', timeout = Some 5000, selectorAttribute = None, steps = ss\<rparr>"

section \<open>Properties of the runner\<close>

subsection \<open>Logs\<close>

lemma calls_Nil [simp]:
  "runStep_calls [] = []" "beforeEachStep_calls [] = []" "afterEachStep_calls [] = []"
  by (simp_all add: runStep_calls_def beforeEachStep_calls_def afterEachStep_calls_def)

lemma runStep_calls_append [simp]: "runStep_calls (xs @ ys) = runStep_calls xs @ runStep_calls ys"
  by (simp add: runStep_calls_def)

lemma beforeEachStep_calls_append [simp]:
  "beforeEachStep_calls (xs @ ys) = beforeEachStep_calls xs @ beforeEachStep_calls ys"
  by (simp add: beforeEachStep_calls_def)

lemma afterEachStep_calls_append [simp]:
  "afterEachStep_calls (xs @ ys) = afterEachStep_calls xs @ afterEachStep_calls ys"
  by (simp add: afterEachStep_calls_def)

lemma runStep_calls_step_calls [simp]: "runStep_calls (step_calls ext s) = [s]"
  by (simp add: runStep_calls_def step_calls_def)

lemma runStep_calls_concat_step_calls [simp]:
  "runStep_calls (concat (map (step_calls ext) xs)) = xs"
  by (induction xs) simp_all

lemma beforeEachStep_calls_concat_step_calls [simp]:
  "beforeEachStep_calls (concat (map (step_calls ext) xs)) =
     (if beforeEachStep ext = None then [] else xs)"
  by (induction xs) (simp_all add: beforeEachStep_calls_def step_calls_def)

lemma afterEachStep_calls_concat_step_calls [simp]:
  "afterEachStep_calls (concat (map (step_calls ext) xs)) =
     (if afterEachStep ext = None then [] else xs)"
  by (induction xs) (simp_all add: afterEachStep_calls_def step_calls_def)

lemma replay_append:
  "replay ext fl (xs @ ys) w =
     (case replay ext fl xs w of (Some e, w') \<Rightarrow> (Some e, w') | (None, w') \<Rightarrow> replay ext fl ys w')"
  by (induction xs arbitrary: w) (auto split: prod.splits option.splits)

subsection \<open>One awaited call\<close>

lemma await_perform:
  assumes "f = perform ext fl c"
  shows "await c f (w, tr) = (r, (w', tr')) \<longleftrightarrow> tr' = tr @ [c] \<and> perform ext fl c w = (r, w')"
  using assms by (auto simp: await_def split: prod.splits)

lemma await_opt_perform_BE:
  "await_opt (BeforeEachStep s) (map_option (\<lambda>h. h s fl) (beforeEachStep ext)) (w, tr) = (r, (w', tr')) \<longleftrightarrow>
     (tr' = tr @ (if beforeEachStep ext = None then [] else [BeforeEachStep s])
      \<and> perform ext fl (BeforeEachStep s) w = (r, w'))"
  by (auto simp: await_opt_def await_def perform_def split: option.splits prod.splits)

lemma await_opt_perform_AE:
  "await_opt (AfterEachStep s) (map_option (\<lambda>h. h s fl) (afterEachStep ext)) (w, tr) = (r, (w', tr')) \<longleftrightarrow>
     (tr' = tr @ (if afterEachStep ext = None then [] else [AfterEachStep s])
      \<and> perform ext fl (AfterEachStep s) w = (r, w'))"
  by (auto simp: await_opt_def await_def perform_def split: option.splits prod.splits)

lemma await_perform_RS:
  "await (RunStep s) (runStep ext s fl) (w, tr) = (r, (w', tr')) \<longleftrightarrow>
     (tr' = tr @ [RunStep s] \<and> perform ext fl (RunStep s) w = (r, w'))"
  by (auto simp: await_def perform_def split: prod.splits)

lemma perform_absent:
  "beforeEachStep ext = None \<Longrightarrow> perform ext fl (BeforeEachStep s) w = (None, w)"
  "afterEachStep ext = None \<Longrightarrow> perform ext fl (AfterEachStep s) w = (None, w)"
  "beforeAllSteps ext = None \<Longrightarrow> perform ext fl BeforeAllSteps w = (None, w)"
  "afterAllSteps ext = None \<Longrightarrow> perform ext fl AfterAllSteps w = (None, w)"
  by (simp_all add: perform_def)

lemma replay_single [simp]: "replay ext fl [c] w = perform ext fl c w"
  by (auto split: prod.splits option.splits)

declare replay.simps(2) [simp del]

lemma replay_then:
  "replay ext fl xs w = (None, w1) \<Longrightarrow> replay ext fl (xs @ ys) w = replay ext fl ys w1"
  by (simp add: replay_append)

lemma run_body_log:
  assumes "run_body ext fl s (w, tr) = (r, (w', tr'))"
  shows "\<exists>part. tr' = tr @ part \<and> replay ext fl part w = (r, w') \<and>
           (case r of None \<Rightarrow> part = step_calls ext s
            | Some e \<Rightarrow> part \<noteq> [] \<and> prefix part (step_calls ext s))"
proof -
  let ?be = "if beforeEachStep ext = None then [] else [BeforeEachStep s]"
  let ?ae = "if afterEachStep ext = None then [] else [AfterEachStep s]"
  obtain r1 w1 tr1 where a1:
    "await_opt (BeforeEachStep s) (map_option (\<lambda>h. h s fl) (beforeEachStep ext)) (w, tr) = (r1, (w1, tr1))"
    by (metis prod_cases3)
  then have t1: "tr1 = tr @ ?be" and p1: "perform ext fl (BeforeEachStep s) w = (r1, w1)"
    by (simp_all add: await_opt_perform_BE)
  have rp1: "replay ext fl ?be w = (r1, w1)"
    using p1 by (cases "beforeEachStep ext") (auto simp: perform_absent split: option.splits)
  show ?thesis
  proof (cases r1)
    case (Some e)
    then have res: "r = Some e" "w' = w1" "tr' = tr1"
      using assms a1 by (simp_all add: run_body_def)
    have "beforeEachStep ext \<noteq> None"
      using p1 Some by (cases "beforeEachStep ext") (simp_all add: perform_absent)
    then show ?thesis
      using res t1 rp1 Some by (simp add: step_calls_def)
  next
    case None
    obtain r2 w2 tr2 where a2:
      "await (RunStep s) (runStep ext s fl) (w1, tr1) = (r2, (w2, tr2))"
      by (metis prod_cases3)
    then have t2: "tr2 = tr1 @ [RunStep s]" and p2: "perform ext fl (RunStep s) w1 = (r2, w2)"
      by (simp_all add: await_perform_RS)
    have rp2: "replay ext fl (?be @ [RunStep s]) w = (r2, w2)"
      using rp1 p2 None replay_then [of ext fl ?be w w1 "[RunStep s]"] by (simp only: replay_single)
    show ?thesis
    proof (cases r2)
      case (Some e)
      then have res: "r = Some e" "w' = w2" "tr' = tr2"
        using assms a1 a2 None by (simp_all add: run_body_def)
      show ?thesis
        using res t1 t2 rp2 Some by (simp add: step_calls_def)
    next
      case r2: None
      obtain r3 w3 tr3 where a3:
        "await_opt (AfterEachStep s) (map_option (\<lambda>h. h s fl) (afterEachStep ext)) (w2, tr2) = (r3, (w3, tr3))"
        by (metis prod_cases3)
      then have t3: "tr3 = tr2 @ ?ae" and p3: "perform ext fl (AfterEachStep s) w2 = (r3, w3)"
        by (simp_all add: await_opt_perform_AE)
      have res: "r = r3" "w' = w3" "tr' = tr3"
        using assms a1 a2 a3 None r2 by (simp_all add: run_body_def)
      have "replay ext fl ?ae w2 = (r3, w3)"
        using p3 by (cases "afterEachStep ext") (auto simp: perform_absent split: option.splits)
      then have rp3: "replay ext fl ((?be @ [RunStep s]) @ ?ae) w = (r3, w3)"
        using rp2 r2 replay_then [of ext fl "?be @ [RunStep s]" w w2 ?ae] by (simp only:)
      have "afterEachStep ext \<noteq> None" if "r3 \<noteq> None"
        using p3 that by (cases "afterEachStep ext") (simp_all add: perform_absent)
      then show ?thesis
        using res t1 t2 t3 rp3 by (cases r3) (simp_all add: step_calls_def)
    qed
  qed
qed


lemma steps_between_Cons:
  "n < length (steps fl) \<Longrightarrow> n < n' \<Longrightarrow>
     steps_between fl n n' = steps fl ! n # steps_between fl (Suc n) n'"
proof -
  assume a: "n < length (steps fl)" "n < n'"
  then obtain d where d: "n' - n = Suc d" "n' - Suc n = d"
    by (cases "n' - n") auto
  show ?thesis
    using a(1) by (simp add: steps_between_def d flip: Cons_nth_drop_Suc)
qed

lemma steps_between_same [simp]: "steps_between fl n n = []"
  by (simp add: steps_between_def)

declare run_loop.simps [simp del]

lemma run_loop_stop:
  "\<not> (int n < k \<and> n < length (steps fl)) \<Longrightarrow> run_loop ext fl k n st = (None, n, st)"
  by (subst run_loop.simps) (rule if_not_P)

lemma run_loop_step:
  "int n < k \<Longrightarrow> n < length (steps fl) \<Longrightarrow>
     run_loop ext fl k n st =
       (case run_body ext fl (steps fl ! n) st of
          (Some e, st') \<Rightarrow> (Some e, n, st')
        | (None, st') \<Rightarrow> run_loop ext fl k (Suc n) st')"
  by (subst run_loop.simps) simp

lemma run_loop_log:
  "run_loop ext fl k n (w, tr) = (r, n', (w', tr')) \<Longrightarrow>
     \<exists>part. loop_post ext fl k n w tr r n' w' tr' part"
proof (induction ext fl k n "(w, tr)" arbitrary: w tr rule: run_loop.induct)
  case (1 ext fl k n)
  show ?case
  proof (cases "int n < k \<and> n < length (steps fl)")
    case False
    then have "r = None" "n' = n" "w' = w" "tr' = tr"
      using "1.prems" by (simp_all add: run_loop_stop)
    moreover have "n = max n (min (nat k) (length (steps fl)))"
      using False by auto
    ultimately have "loop_post ext fl k n w tr r n' w' tr' []"
      by (simp add: loop_post_def)
    then show ?thesis ..
  next
    case True
    obtain r1 w1 tr1 where b: "run_body ext fl (steps fl ! n) (w, tr) = (r1, (w1, tr1))"
      by (metis prod_cases3)
    from run_body_log [OF b] obtain p1 where
      t1: "tr1 = tr @ p1" and rp1: "replay ext fl p1 w = (r1, w1)" and
      c1: "case r1 of None \<Rightarrow> p1 = step_calls ext (steps fl ! n)
           | Some e \<Rightarrow> p1 \<noteq> [] \<and> prefix p1 (step_calls ext (steps fl ! n))"
      by blast
    show ?thesis
    proof (cases r1)
      case (Some e)
      then have "r = Some e" "n' = n" "w' = w1" "tr' = tr1"
        using "1.prems" True b by (simp_all add: run_loop_step)
      then show ?thesis
        using t1 rp1 c1 Some True by (auto simp: loop_post_def)
    next
      case None
      then have rec: "run_loop ext fl k (Suc n) (w1, tr1) = (r, n', (w', tr'))"
        using "1.prems" True b by (simp add: run_loop_step)
      from "1.hyps" [OF True b [symmetric] None rec] obtain p2 where
        ih: "loop_post ext fl k (Suc n) w1 tr1 r n' w' tr' p2"
        by blast
      have lt: "n < n'" using ih by (simp add: loop_post_def)
      have sb: "steps_between fl n n' = steps fl ! n # steps_between fl (Suc n) n'"
        using True lt by (simp add: steps_between_Cons)
      have p1: "p1 = step_calls ext (steps fl ! n)"
        using c1 None by simp
      have "replay ext fl (p1 @ concat (map (step_calls ext) (steps_between fl (Suc n) n')) @ p2) w
              = (r, w')"
        using rp1 None ih replay_then [of ext fl p1 w w1] by (simp add: loop_post_def)
      moreover have "r = None \<Longrightarrow> n' = max n (min (nat k) (length (steps fl)))"
        using ih True by (auto simp: loop_post_def)
      ultimately have "loop_post ext fl k n w tr r n' w' tr' p2"
        using ih lt t1 p1 sb by (cases r) (simp_all add: loop_post_def)
      then show ?thesis ..
    qed
  qed
qed


lemma await_opt_perform_BA:
  "await_opt BeforeAllSteps (map_option (\<lambda>h. h fl) (beforeAllSteps ext)) (w, tr) = (r, (w', tr')) \<longleftrightarrow>
     (tr' = tr @ before_all_calls ext \<and> perform ext fl BeforeAllSteps w = (r, w'))"
  by (auto simp: await_opt_def await_def perform_def before_all_calls_def split: option.splits prod.splits)

lemma await_opt_perform_AA:
  "await_opt AfterAllSteps (map_option (\<lambda>h. h fl) (afterAllSteps ext)) (w, tr) = (r, (w', tr')) \<longleftrightarrow>
     (tr' = tr @ after_all_calls ext \<and> perform ext fl AfterAllSteps w = (r, w'))"
  by (auto simp: await_opt_def await_def perform_def after_all_calls_def split: option.splits prod.splits)

lemma replay_before_all:
  "replay ext fl (before_all_calls ext) w = perform ext fl BeforeAllSteps w"
  by (cases "beforeAllSteps ext")
    (auto simp: before_all_calls_def perform_absent split: prod.splits option.splits)

lemma replay_after_all:
  "replay ext fl (after_all_calls ext) w = perform ext fl AfterAllSteps w"
  by (cases "afterAllSteps ext")
    (auto simp: after_all_calls_def perform_absent split: prod.splits option.splits)

lemma perform_fails_present:
  "perform ext fl BeforeAllSteps w = (Some e, w') \<Longrightarrow> before_all_calls ext = [BeforeAllSteps]"
  "perform ext fl AfterAllSteps w = (Some e, w') \<Longrightarrow> after_all_calls ext = [AfterAllSteps]"
proof -
  show "perform ext fl BeforeAllSteps w = (Some e, w') \<Longrightarrow> before_all_calls ext = [BeforeAllSteps]"
    by (cases "beforeAllSteps ext") (simp_all add: perform_absent before_all_calls_def)
  show "perform ext fl AfterAllSteps w = (Some e, w') \<Longrightarrow> after_all_calls ext = [AfterAllSteps]"
    by (cases "afterAllSteps ext") (simp_all add: perform_absent after_all_calls_def)
qed

lemma run_cases:
  fixes r :: "('s, 'w, 'e) Runner"
  obtains
    (before_all) e w1 where
      "nextStep r = 0" "perform (extension r) (flow r) BeforeAllSteps w = (Some e, w1)"
      "run r k w = (Threw e, r, w1, [BeforeAllSteps])"
  | (step) e n w1 w2 part where
      "replay (extension r) (flow r) (entry_calls r) w = (None, w1)"
      "loop_post (extension r) (flow r) (upTo r k) (nextStep r) w1 (entry_calls r) (Some e) n w2
         (entry_calls r @ loop_calls r n @ part) part"
      "run r k w = (Threw e, r\<lparr>nextStep := n\<rparr>, w2, entry_calls r @ loop_calls r n @ part)"
  | (unfinished) w1 w2 where
      "replay (extension r) (flow r) (entry_calls r) w = (None, w1)"
      "replay (extension r) (flow r) (loop_calls r (cursor_after r k)) w1 = (None, w2)"
      "cursor_after r k < length (steps (flow r))"
      "run r k w = (Returned False, r\<lparr>nextStep := cursor_after r k\<rparr>, w2,
                    entry_calls r @ loop_calls r (cursor_after r k))"
  | (finished) x w1 w2 w3 where
      "replay (extension r) (flow r) (entry_calls r) w = (None, w1)"
      "replay (extension r) (flow r) (loop_calls r (cursor_after r k)) w1 = (None, w2)"
      "perform (extension r) (flow r) AfterAllSteps w2 = (x, w3)"
      "length (steps (flow r)) \<le> cursor_after r k"
      "run r k w = ((case x of None \<Rightarrow> Returned True | Some e \<Rightarrow> Threw e),
                    r\<lparr>nextStep := cursor_after r k\<rparr>, w3,
                    entry_calls r @ loop_calls r (cursor_after r k) @ after_all_calls (extension r))"
proof -
  let ?fl = "flow r" and ?ext = "extension r"
  obtain r0 w1 tr1 where s1:
    "(if nextStep r = 0
      then await_opt BeforeAllSteps (map_option (\<lambda>h. h ?fl) (beforeAllSteps ?ext)) (w, [])
      else (None, (w, [] :: 's call list))) = (r0, (w1, tr1))"
    by (metis prod_cases3)
  then have t1: "tr1 = entry_calls r" and p1: "replay ?ext ?fl (entry_calls r) w = (r0, w1)"
    by (auto simp: entry_calls_def await_opt_perform_BA replay_before_all split: if_splits)
  show thesis
  proof (cases r0)
    case (Some e)
    then have z: "nextStep r = 0" and pf: "perform ?ext ?fl BeforeAllSteps w = (Some e, w1)"
      using s1 by (auto simp: await_opt_perform_BA split: if_splits)
    have "tr1 = [BeforeAllSteps]"
      using t1 z perform_fails_present(1) [OF pf] by (simp add: entry_calls_def)
    then have "run r k w = (Threw e, r, w1, [BeforeAllSteps])"
      using s1 Some z by (simp add: run_def Let_def)
    then show thesis using before_all z pf by blast
  next
    case None
    obtain r2 n w2 tr2 where s2:
      "run_loop ?ext ?fl (upTo r k) (nextStep r) (w1, tr1) = (r2, n, (w2, tr2))"
      by (metis prod_cases4)
    from run_loop_log [OF s2] obtain part where
      lp: "loop_post ?ext ?fl (upTo r k) (nextStep r) w1 tr1 r2 n w2 tr2 part"
      by blast
    then have t2: "tr2 = entry_calls r @ loop_calls r n @ part"
      by (simp add: loop_post_def t1 loop_calls_def)
    show thesis
    proof (cases r2)
      case (Some e)
      have "run r k w = (Threw e, r\<lparr>nextStep := n\<rparr>, w2, tr2)"
        using s1 s2 None Some by (simp add: run_def Let_def upTo_def)
      then show thesis
        using step [of w1 e n w2 part] p1 None lp Some t1 t2 by simp
    next
      case r2: None
      then have n: "n = cursor_after r k" and part: "part = []"
        using lp by (simp_all add: loop_post_def cursor_after_def)
      have "replay ?ext ?fl (loop_calls r n @ part) w1 = (r2, w2)"
        using lp unfolding loop_post_def loop_calls_def by (elim conjE)
      then have "replay ?ext ?fl (loop_calls r n) w1 = (None, w2)"
        by (simp add: r2 part)
      then have p2: "replay ?ext ?fl (loop_calls r (cursor_after r k)) w1 = (None, w2)"
        by (simp only: n)
      show thesis
      proof (cases "length (steps ?fl) \<le> n")
        case False
        then have "run r k w = (Returned False, r\<lparr>nextStep := n\<rparr>, w2, tr2)"
          using s1 s2 None r2 by (simp add: run_def Let_def upTo_def)
        then show thesis
          using unfinished [of w1 w2] p1 None p2 False n t2 part by simp
      next
        case True
        obtain x w3 tr3 where s3:
          "await_opt AfterAllSteps (map_option (\<lambda>h. h ?fl) (afterAllSteps ?ext)) (w2, tr2) = (x, (w3, tr3))"
          by (metis prod_cases3)
        then have t3: "tr3 = tr2 @ after_all_calls ?ext" and p3: "perform ?ext ?fl AfterAllSteps w2 = (x, w3)"
          by (simp_all add: await_opt_perform_AA)
        have "run r k w = ((case x of None \<Rightarrow> Returned True | Some e \<Rightarrow> Threw e),
                r\<lparr>nextStep := n\<rparr>, w3, tr3)"
          using s1 s2 s3 None r2 True
          by (simp add: run_def Let_def upTo_def split: option.splits)
        then show thesis
          using finished [of w1 w2 x w3] p1 None p2 p3 True n t2 t3 part by simp
      qed
    qed
  qed
qed

subsection \<open>Facts used by the claims about the runner\<close>

lemma new_Runner_simps [simp]:
  "flow (new_Runner fl ext) = fl" "extension (new_Runner fl ext) = ext" "nextStep (new_Runner fl ext) = 0"
  by (simp_all add: new_Runner_def)

lemma never_fails_perform: "never_fails ext \<Longrightarrow> perform ext fl c w = (x, w') \<Longrightarrow> x = None"
  by (metis never_fails_def fst_conv)

lemma never_fails_replay: "never_fails ext \<Longrightarrow> replay ext fl tr w = (x, w') \<Longrightarrow> x = None"
proof (induction tr arbitrary: w)
  case Nil
  then show ?case by simp
next
  case (Cons c tr)
  obtain y w1 where p: "perform ext fl c w = (y, w1)" by (cases "perform ext fl c w")
  then have "y = None" using Cons.prems(1) never_fails_perform by metis
  then show ?case using Cons p by (simp add: replay.simps(2))
qed

lemma hook_calls_simps [simp]:
  "runStep_calls (before_all_calls ext) = []" "runStep_calls (after_all_calls ext) = []"
  "beforeEachStep_calls (before_all_calls ext) = []" "beforeEachStep_calls (after_all_calls ext) = []"
  "afterEachStep_calls (before_all_calls ext) = []" "afterEachStep_calls (after_all_calls ext) = []"
  by (simp_all add: runStep_calls_def beforeEachStep_calls_def afterEachStep_calls_def
      before_all_calls_def after_all_calls_def)

lemma entry_calls_simps [simp]:
  "runStep_calls (entry_calls r) = []" "beforeEachStep_calls (entry_calls r) = []"
  "afterEachStep_calls (entry_calls r) = []"
  by (simp_all add: entry_calls_def)

lemma loop_calls_simps [simp]:
  "runStep_calls (loop_calls r n) = steps_between (flow r) (nextStep r) n"
  "beforeEachStep_calls (loop_calls r n) =
     (if beforeEachStep (extension r) = None then [] else steps_between (flow r) (nextStep r) n)"
  "afterEachStep_calls (loop_calls r n) =
     (if afterEachStep (extension r) = None then [] else steps_between (flow r) (nextStep r) n)"
  by (simp_all add: loop_calls_def)

lemma steps_between_all: "length (steps fl) \<le> n \<Longrightarrow> steps_between fl 0 n = steps fl"
  by (simp add: steps_between_def)

lemma length_steps_between: "length (steps_between fl i j) = min (j - i) (length (steps fl) - i)"
  by (simp add: steps_between_def)

lemma cursor_after_fresh_le: "cursor_after (new_Runner fl ext) k \<le> length (steps fl)"
  by (simp add: cursor_after_def)

lemma cursor_after_None: "nextStep r \<le> length (steps (flow r)) \<Longrightarrow> cursor_after r None = length (steps (flow r))"
  by (simp add: cursor_after_def upTo_def)


lemma run_preserves:
  assumes "run r k w = (out, r', w', tr)"
  shows "flow r' = flow r" "extension r' = extension r" "nextStep r \<le> nextStep r'"
proof -
  have "flow r' = flow r \<and> extension r' = extension r \<and> nextStep r \<le> nextStep r'"
    using run_cases [where r = r and k = k and w = w]
  proof cases
    case (before_all e w1)
    then show ?thesis using assms by simp
  next
    case (step e n w1 w2 part)
    then show ?thesis using assms by (auto simp: loop_post_def)
  next
    case (unfinished w1 w2)
    then show ?thesis using assms by (auto simp: cursor_after_def)
  next
    case (finished x w1 w2 w3)
    then show ?thesis using assms by (auto simp: cursor_after_def)
  qed
  then show "flow r' = flow r" "extension r' = extension r" "nextStep r \<le> nextStep r'"
    by simp_all
qed

lemma loop_calls_same [simp]: "loop_calls r (nextStep r) = []"
  by (simp add: loop_calls_def)




lemma replay_Nil_eq [simp]: "replay ext fl [] w = (x, w') \<longleftrightarrow> x = None \<and> w' = w"
  by auto



lemma partial_step_calls:
  assumes "part \<noteq> []" and "prefix part (step_calls ext s)"
  shows "last part \<in> {BeforeEachStep s, RunStep s, AfterEachStep s}"
    and "set part \<subseteq> {BeforeEachStep s, RunStep s, AfterEachStep s}"
    and "\<exists>rest. part = first_call ext s # rest"
    and "last part = RunStep s \<Longrightarrow> afterEachStep_calls part = [] \<and> runStep_calls part = [s]"
  using assms
  by (auto simp: step_calls_def first_call_def prefix_Cons afterEachStep_calls_def runStep_calls_def
      split: if_splits)

lemma set_step_calls: "set (step_calls ext s) \<subseteq> {BeforeEachStep s, RunStep s, AfterEachStep s}"
  by (auto simp: step_calls_def)

lemma AfterAllSteps_notin_loop_calls: "AfterAllSteps \<notin> set (loop_calls r n)"
  using set_step_calls by (fastforce simp: loop_calls_def)

lemma BeforeAllSteps_notin_loop_calls: "BeforeAllSteps \<notin> set (loop_calls r n)"
  using set_step_calls by (fastforce simp: loop_calls_def)



lemma run_Returned:
  assumes "run r k w = (Returned b, r', w', tr)"
  shows "r' = r\<lparr>nextStep := cursor_after r k\<rparr>"
    and "b \<longleftrightarrow> length (steps (flow r)) \<le> cursor_after r k"
    and "tr = entry_calls r @ loop_calls r (cursor_after r k) @
           (if b then after_all_calls (extension r) else [])"
proof -
  have "r' = r\<lparr>nextStep := cursor_after r k\<rparr> \<and>
        (b \<longleftrightarrow> length (steps (flow r)) \<le> cursor_after r k) \<and>
        tr = entry_calls r @ loop_calls r (cursor_after r k) @
           (if b then after_all_calls (extension r) else [])"
    using run_cases [where r = r and k = k and w = w]
  proof cases
    case (finished x w1 w2 w3)
    then show ?thesis using assms by (cases x) auto
  qed (use assms in auto)
  then show "r' = r\<lparr>nextStep := cursor_after r k\<rparr>"
    and "b \<longleftrightarrow> length (steps (flow r)) \<le> cursor_after r k"
    and "tr = entry_calls r @ loop_calls r (cursor_after r k) @
           (if b then after_all_calls (extension r) else [])"
    by simp_all
qed

lemma run_never_fails:
  assumes "never_fails (extension r)" and "run r k w = (out, r', w', tr)"
  shows "\<exists>b. out = Returned b"
  using run_cases [where r = r and k = k and w = w]
proof cases
  case (before_all e w1)
  then show ?thesis using assms(1) never_fails_perform by fastforce
next
  case (step e n w1 w2 part)
  then show ?thesis using assms(1) never_fails_replay unfolding loop_post_def by fastforce
next
  case (unfinished w1 w2)
  then show ?thesis using assms(2) by auto
next
  case (finished x w1 w2 w3)
  then have "x = None" using assms(1) never_fails_perform by metis
  then show ?thesis using finished(5) assms(2) by auto
qed

lemma runStep_calls_Returned:
  assumes "run r k w = (Returned b, r', w', tr)"
  shows "runStep_calls tr = steps_between (flow r) (nextStep r) (cursor_after r k)"
  using run_Returned(3) [OF assms] by simp




lemma count_list_loop_calls [simp]:
  "count_list (loop_calls r n) BeforeAllSteps = 0" "count_list (loop_calls r n) AfterAllSteps = 0"
  using BeforeAllSteps_notin_loop_calls [of r n] AfterAllSteps_notin_loop_calls [of r n]
  by (simp_all add: count_list_0_iff)

lemma count_list_partial:
  assumes "part \<noteq> []" and "prefix part (step_calls ext s)"
  shows "count_list part BeforeAllSteps = 0" "count_list part AfterAllSteps = 0"
  using partial_step_calls(2) [OF assms] by (auto simp: count_list_0_iff)

lemma count_list_entry_calls [simp]:
  "count_list (entry_calls r) BeforeAllSteps =
     (if nextStep r = 0 \<and> beforeAllSteps (extension r) \<noteq> None then 1 else 0)"
  "count_list (entry_calls r) AfterAllSteps = 0"
  by (simp_all add: entry_calls_def before_all_calls_def)

lemma count_list_after_all_calls [simp]:
  "count_list (after_all_calls ext) BeforeAllSteps = 0"
  "count_list (after_all_calls ext) AfterAllSteps = (if afterAllSteps ext \<noteq> None then 1 else 0)"
  by (simp_all add: after_all_calls_def)

lemma run_hooks:
  assumes "run r k w = (out, r', w', tr)"
  shows "count_list tr BeforeAllSteps =
           (if nextStep r = 0 \<and> beforeAllSteps (extension r) \<noteq> None then 1 else 0)"
    and "count_list tr AfterAllSteps \<le> 1"
    and "\<And>b. out = Returned b \<Longrightarrow>
           (b \<longleftrightarrow> length (steps (flow r)) \<le> nextStep r') \<and>
           count_list tr AfterAllSteps = (if b \<and> afterAllSteps (extension r) \<noteq> None then 1 else 0)"
    and "length (steps (flow r)) \<le> nextStep r \<Longrightarrow> out \<noteq> Returned False"
proof -
  have "count_list tr BeforeAllSteps =
           (if nextStep r = 0 \<and> beforeAllSteps (extension r) \<noteq> None then 1 else 0) \<and>
        count_list tr AfterAllSteps \<le> 1 \<and>
        (\<forall>b. out = Returned b \<longrightarrow>
           (b \<longleftrightarrow> length (steps (flow r)) \<le> nextStep r') \<and>
           count_list tr AfterAllSteps = (if b \<and> afterAllSteps (extension r) \<noteq> None then 1 else 0)) \<and>
        (length (steps (flow r)) \<le> nextStep r \<longrightarrow> out \<noteq> Returned False)"
    using run_cases [where r = r and k = k and w = w]
  proof cases
    case (before_all e w1)
    have "beforeAllSteps (extension r) \<noteq> None"
      using perform_fails_present(1) [OF before_all(2)]
      by (auto simp: before_all_calls_def split: if_splits)
    then show ?thesis using before_all(1,3) assms by auto
  next
    case (step e n w1 w2 part)
    have "part \<noteq> []" "prefix part (step_calls (extension r) (steps (flow r) ! n))"
      using step(2) by (simp_all add: loop_post_def)
    note cp = count_list_partial [OF this]
    show ?thesis using step(3) assms cp by auto
  next
    case (unfinished w1 w2)
    then show ?thesis using assms by (auto simp: cursor_after_def)
  next
    case (finished x w1 w2 w3)
    then show ?thesis using assms by (cases x) auto
  qed
  then show "count_list tr BeforeAllSteps =
           (if nextStep r = 0 \<and> beforeAllSteps (extension r) \<noteq> None then 1 else 0)"
    and "count_list tr AfterAllSteps \<le> 1"
    and "\<And>b. out = Returned b \<Longrightarrow>
           (b \<longleftrightarrow> length (steps (flow r)) \<le> nextStep r') \<and>
           count_list tr AfterAllSteps = (if b \<and> afterAllSteps (extension r) \<noteq> None then 1 else 0)"
    and "length (steps (flow r)) \<le> nextStep r \<Longrightarrow> out \<noteq> Returned False"
    by simp_all
qed

lemma runs_later:
  assumes "(d, out, tr, d') \<in> set (runs r ks w)"
  shows "nextStep r \<le> d"
    and "0 < nextStep r \<Longrightarrow> count_list tr BeforeAllSteps = 0"
    and "length (steps (flow r)) \<le> nextStep r \<Longrightarrow> out \<noteq> Returned False"
proof -
  have "nextStep r \<le> d \<and> (0 < nextStep r \<longrightarrow> count_list tr BeforeAllSteps = 0) \<and>
        (length (steps (flow r)) \<le> nextStep r \<longrightarrow> out \<noteq> Returned False)"
    using assms
  proof (induction ks arbitrary: r w)
    case Nil
    then show ?case by simp
  next
    case (Cons k ks)
    obtain o1 r1 w1 t1 where run1: "run r k w = (o1, r1, w1, t1)"
      by (metis prod_cases4)
    note p = run_preserves [OF run1] and h = run_hooks [OF run1]
    from Cons.prems run1 consider
      (first) "d = nextStep r" "out = o1" "tr = t1"
      | (later) "(d, out, tr, d') \<in> set (runs r1 ks w1)"
      by auto
    then show ?case
    proof cases
      case first
      then show ?thesis using h(1,4) by auto
    next
      case later
      from Cons.IH [OF later] show ?thesis using p by auto
    qed
  qed
  then show "nextStep r \<le> d"
    and "0 < nextStep r \<Longrightarrow> count_list tr BeforeAllSteps = 0"
    and "length (steps (flow r)) \<le> nextStep r \<Longrightarrow> out \<noteq> Returned False"
    by simp_all
qed

lemma runs_split:
  assumes "runs r ks w = pre @ this_one # post"
  shows "\<exists>r0 w0 k ks'. flow r0 = flow r \<and> extension r0 = extension r \<and>
           nextStep r \<le> nextStep r0 \<and> runs r0 (k # ks') w0 = this_one # post"
  using assms
proof (induction pre arbitrary: r ks w)
  case Nil
  then obtain k ks' where "ks = k # ks'" by (cases ks) auto
  then show ?case using Nil by fastforce
next
  case (Cons p pre)
  then obtain k ks' where ks: "ks = k # ks'" by (cases ks) auto
  obtain o1 r1 w1 t1 where run1: "run r k w = (o1, r1, w1, t1)"
    by (metis prod_cases4)
  then have "runs r1 ks' w1 = pre @ this_one # post"
    using Cons.prems ks by simp
  from Cons.IH [OF this] obtain r0 w0 k0 ks0 where
    "flow r0 = flow r1" "extension r0 = extension r1" "nextStep r1 \<le> nextStep r0"
    "runs r0 (k0 # ks0) w0 = this_one # post"
    by blast
  then show ?case using run_preserves [OF run1] by (metis le_trans)
qed

subsection \<open>An invocation as the replay of its plan\<close>

lemma issued_append:
  "issued ext fl (xs @ ys) w =
     (case replay ext fl xs w of
        (None, w') \<Rightarrow> xs @ issued ext fl ys w'
      | (Some e, w') \<Rightarrow> issued ext fl xs w)"
  by (induction xs arbitrary: w) (auto simp: replay.simps(2) split: prod.splits option.splits)

lemma issued_ok: "replay ext fl xs w = (None, w') \<Longrightarrow> issued ext fl xs w = xs"
  by (induction xs arbitrary: w) (auto simp: replay.simps(2) split: prod.splits option.splits)

lemma issued_rejected:
  assumes "replay ext fl xs w = (Some e, w')"
  shows "issued ext fl xs w \<noteq> [] \<and> prefix (issued ext fl xs w) xs \<and>
         (\<exists>w0. replay ext fl (butlast (issued ext fl xs w)) w = (None, w0) \<and>
               perform ext fl (last (issued ext fl xs w)) w0 = (Some e, w'))"
  using assms
proof (induction xs arbitrary: w)
  case Nil
  then show ?case by simp
next
  case (Cons c cs)
  obtain x w1 where p: "perform ext fl c w = (x, w1)" by (cases "perform ext fl c w")
  show ?case
  proof (cases x)
    case (Some e1)
    then show ?thesis using Cons.prems p by (simp add: replay.simps(2))
  next
    case None
    then have r: "replay ext fl cs w1 = (Some e, w')"
      using Cons.prems p by (simp add: replay.simps(2))
    from Cons.IH [OF r] obtain w0 where
      ih: "issued ext fl cs w1 \<noteq> []" "prefix (issued ext fl cs w1) cs"
        "replay ext fl (butlast (issued ext fl cs w1)) w1 = (None, w0)"
        "perform ext fl (last (issued ext fl cs w1)) w0 = (Some e, w')"
      by blast
    have i: "issued ext fl (c # cs) w = c # issued ext fl cs w1"
      using p None by simp
    show ?thesis
      using ih p None by (auto simp: i replay.simps(2))
  qed
qed

lemma completed_append:
  "replay ext fl (concat (map (step_calls ext) xs)) w = (None, w') \<Longrightarrow>
     completed ext fl (xs @ ys) w = length xs + completed ext fl ys w'"
proof (induction xs arbitrary: w)
  case Nil
  then show ?case by simp
next
  case (Cons s xs)
  obtain x w1 where p: "replay ext fl (step_calls ext s) w = (x, w1)"
    by (cases "replay ext fl (step_calls ext s) w")
  then have "x = None" and "replay ext fl (concat (map (step_calls ext) xs)) w1 = (None, w')"
    using Cons.prems by (auto simp: replay_append split: option.splits)
  then show ?case using Cons.IH p by simp
qed

lemma completed_all:
  "replay ext fl (concat (map (step_calls ext) xs)) w = (None, w') \<Longrightarrow>
     completed ext fl xs w = length xs"
  using completed_append [of ext fl xs w w' "[]"] by simp


lemma run_body_eq:
  "run_body ext fl s (w, tr) =
     (fst (replay ext fl (step_calls ext s) w),
      snd (replay ext fl (step_calls ext s) w),
      tr @ issued ext fl (step_calls ext s) w)"
proof -
  let ?be = "if beforeEachStep ext = None then [] else [BeforeEachStep s]"
  let ?ae = "if afterEachStep ext = None then [] else [AfterEachStep s]"
  obtain x1 w1 where p1: "perform ext fl (BeforeEachStep s) w = (x1, w1)"
    by (cases "perform ext fl (BeforeEachStep s) w")
  have a1: "await_opt (BeforeEachStep s) (map_option (\<lambda>h. h s fl) (beforeEachStep ext)) (w, tr)
      = (x1, (w1, tr @ ?be))"
    using p1 by (simp add: await_opt_perform_BE)
  have absent1: "x1 = None \<and> w1 = w" if "beforeEachStep ext = None"
    using p1 that by (simp add: perform_absent)
  show ?thesis
  proof (cases x1)
    case (Some e)
    then have present: "beforeEachStep ext \<noteq> None" using absent1 by auto
    have "run_body ext fl s (w, tr) = (Some e, (w1, tr @ [BeforeEachStep s]))"
      using a1 Some present by (simp add: run_body_def)
    moreover have "replay ext fl (step_calls ext s) w = (Some e, w1)"
      using p1 Some present by (auto simp: step_calls_def replay.simps(2))
    moreover have "issued ext fl (step_calls ext s) w = [BeforeEachStep s]"
      using p1 Some present by (auto simp: step_calls_def)
    ultimately show ?thesis by simp
  next
    case None
    have rb: "replay ext fl ?be w = (None, w1)"
      using p1 None absent1 by (auto simp: replay.simps(2))
    obtain x2 w2 where p2: "perform ext fl (RunStep s) w1 = (x2, w2)"
      by (cases "perform ext fl (RunStep s) w1")
    have a2: "await (RunStep s) (runStep ext s fl) (w1, tr @ ?be) = (x2, (w2, (tr @ ?be) @ [RunStep s]))"
      using p2 by (simp add: await_perform_RS)
    show ?thesis
    proof (cases x2)
      case (Some e)
      have "run_body ext fl s (w, tr) = (Some e, (w2, (tr @ ?be) @ [RunStep s]))"
        using a1 a2 None Some by (simp add: run_body_def)
      moreover have "replay ext fl (?be @ RunStep s # ?ae) w = (Some e, w2)"
        using rb p2 Some by (simp add: replay_append replay.simps(2))
      moreover have "issued ext fl (?be @ RunStep s # ?ae) w = ?be @ [RunStep s]"
        using rb p2 Some by (simp add: issued_append)
      ultimately show ?thesis by (simp add: step_calls_def)
    next
      case x2: None
      obtain x3 w3 where p3: "perform ext fl (AfterEachStep s) w2 = (x3, w3)"
        by (cases "perform ext fl (AfterEachStep s) w2")
      have a3: "await_opt (AfterEachStep s) (map_option (\<lambda>h. h s fl) (afterEachStep ext))
          (w2, (tr @ ?be) @ [RunStep s]) = (x3, (w3, ((tr @ ?be) @ [RunStep s]) @ ?ae))"
        using p3 by (simp add: await_opt_perform_AE)
      have absent3: "x3 = None \<and> w3 = w2" if "afterEachStep ext = None"
        using p3 that by (simp add: perform_absent)
      have "run_body ext fl s (w, tr) = (x3, (w3, ((tr @ ?be) @ [RunStep s]) @ ?ae))"
        using a1 a2 a3 None x2 by (simp add: run_body_def)
      moreover have "replay ext fl ?ae w2 = (x3, w3)"
        using p3 absent3 by auto
      then have "replay ext fl (?be @ RunStep s # ?ae) w = (x3, w3)"
        using rb p2 x2 by (simp add: replay_append replay.simps(2))
      moreover have "issued ext fl ?ae w2 = ?ae"
        using p3 by (auto split: option.splits)
      then have "issued ext fl (?be @ RunStep s # ?ae) w = ?be @ RunStep s # ?ae"
        using rb p2 x2 by (simp add: issued_append)
      ultimately show ?thesis by (simp add: step_calls_def)
    qed
  qed
qed


lemma run_loop_eq:
  "run_loop ext fl k n (w, tr) =
     (fst (replay ext fl
             (concat (map (step_calls ext)
                (steps_between fl n (max n (min (nat k) (length (steps fl))))))) w),
      n + completed ext fl (steps_between fl n (max n (min (nat k) (length (steps fl))))) w,
      snd (replay ext fl
             (concat (map (step_calls ext)
                (steps_between fl n (max n (min (nat k) (length (steps fl))))))) w),
      tr @ issued ext fl
             (concat (map (step_calls ext)
                (steps_between fl n (max n (min (nat k) (length (steps fl))))))) w)"
proof (induction ext fl k n "(w, tr)" arbitrary: w tr rule: run_loop.induct)
  case (1 ext fl k n)
  let ?m = "\<lambda>i. max i (min (nat k) (length (steps fl)))"
  show ?case
  proof (cases "int n < k \<and> n < length (steps fl)")
    case False
    then have "?m n = n" by auto
    then show ?thesis using False by (simp add: run_loop_stop)
  next
    case True
    let ?s = "steps fl ! n"
    let ?rest = "steps_between fl (Suc n) (?m (Suc n))"
    have m: "?m (Suc n) = ?m n" "n < ?m n" using True by auto
    have sb: "steps_between fl n (?m n) = ?s # ?rest"
      using True m steps_between_Cons [of n fl "?m n"] by simp
    obtain x1 w1 where p: "replay ext fl (step_calls ext ?s) w = (x1, w1)"
      by (cases "replay ext fl (step_calls ext ?s) w")
    have b: "run_body ext fl ?s (w, tr) = (x1, (w1, tr @ issued ext fl (step_calls ext ?s) w))"
      using p by (simp add: run_body_eq)
    show ?thesis
    proof (cases x1)
      case (Some e)
      then show ?thesis
        using True b p
        by (simp add: run_loop_step sb replay_append issued_append)
    next
      case None
      have iss: "issued ext fl (step_calls ext ?s) w = step_calls ext ?s"
        using p None by (simp add: issued_ok)
      note ih = "1.hyps" [OF True b [symmetric] None, unfolded iss m(1)]
      have b': "run_body ext fl ?s (w, tr) = (None, (w1, tr @ step_calls ext ?s))"
        using b None iss by simp
      show ?thesis
        using True b' p None
        by (simp add: run_loop_step sb replay_append issued_append ih m(1))
    qed
  qed
qed

lemma replay_entry_calls:
  "replay (extension r) (flow r) (entry_calls r) w =
     (if nextStep r = 0 then perform (extension r) (flow r) BeforeAllSteps w else (None, w))"
  by (simp add: entry_calls_def replay_before_all)

lemma issued_before_all:
  "issued ext fl (before_all_calls ext) w = before_all_calls ext"
  by (simp add: before_all_calls_def split: prod.splits option.splits)

lemma issued_after_all:
  "issued ext fl (after_all_calls ext) w = after_all_calls ext"
  by (simp add: after_all_calls_def split: prod.splits option.splits)

lemma issued_entry_calls: "issued (extension r) (flow r) (entry_calls r) w = entry_calls r"
  by (simp add: entry_calls_def issued_before_all)

lemma run_eq:
  "run r k w =
     (outcome_of (fst (replay (extension r) (flow r) (run_plan r k) w))
        (length (steps (flow r)) \<le> cursor_after r k),
      r\<lparr>nextStep := cursor_reached r k w\<rparr>,
      snd (replay (extension r) (flow r) (run_plan r k) w),
      issued (extension r) (flow r) (run_plan r k) w)"
proof -
  let ?fl = "flow r" and ?ext = "extension r"
  let ?m = "cursor_after r k"
  let ?ss = "steps_between ?fl (nextStep r) ?m"
  let ?aa = "if length (steps ?fl) \<le> ?m then after_all_calls ?ext else []"
  have lc: "loop_calls r ?m = concat (map (step_calls ?ext) ?ss)"
    by (simp add: loop_calls_def)
  obtain x0 w0 where p0: "replay ?ext ?fl (entry_calls r) w = (x0, w0)"
    by (cases "replay ?ext ?fl (entry_calls r) w")
  have s1: "(if nextStep r = 0
      then await_opt BeforeAllSteps (map_option (\<lambda>h. h ?fl) (beforeAllSteps ?ext)) (w, [])
      else (None, (w, []))) = (x0, (w0, entry_calls r))"
  proof (cases "nextStep r = 0")
    case True
    then have "perform ?ext ?fl BeforeAllSteps w = (x0, w0)"
      using p0 by (simp add: replay_entry_calls)
    then show ?thesis
      using True by (simp add: await_opt_perform_BA entry_calls_def)
  next
    case False
    then show ?thesis
      using p0 by (simp add: replay_entry_calls entry_calls_def)
  qed
  show ?thesis
  proof (cases x0)
    case (Some e)
    then have "run r k w = (Threw e, r, w0, entry_calls r)"
      using s1 by (simp add: run_def Let_def)
    moreover have "replay ?ext ?fl (run_plan r k) w = (Some e, w0)"
      using p0 Some by (simp add: run_plan_def replay_append)
    moreover have "issued ?ext ?fl (run_plan r k) w = entry_calls r"
      using p0 Some by (simp add: run_plan_def issued_append issued_entry_calls)
    moreover have "cursor_reached r k w = nextStep r"
      using p0 Some by (simp add: cursor_reached_def)
    ultimately show ?thesis by (simp add: outcome_of_def)
  next
    case None
    obtain x1 w1 where p1: "replay ?ext ?fl (loop_calls r ?m) w0 = (x1, w1)"
      by (cases "replay ?ext ?fl (loop_calls r ?m) w0")
    have cr: "cursor_reached r k w = nextStep r + completed ?ext ?fl ?ss w0"
      using p0 None by (simp add: cursor_reached_def)
    have s2: "run_loop ?ext ?fl (upTo r k) (nextStep r) (w0, entry_calls r) =
        (x1, cursor_reached r k w, (w1, entry_calls r @ issued ?ext ?fl (loop_calls r ?m) w0))"
      using p1 by (simp add: run_loop_eq cr loop_calls_def cursor_after_def)
    show ?thesis
    proof (cases x1)
      case (Some e)
      then have "run r k w = (Threw e, r\<lparr>nextStep := cursor_reached r k w\<rparr>, w1,
          entry_calls r @ issued ?ext ?fl (loop_calls r ?m) w0)"
        using s1 s2 None by (simp add: run_def Let_def upTo_def)
      moreover have "replay ?ext ?fl (run_plan r k) w = (Some e, w1)"
        using p0 p1 None Some by (simp add: run_plan_def replay_append)
      moreover have "issued ?ext ?fl (run_plan r k) w
          = entry_calls r @ issued ?ext ?fl (loop_calls r ?m) w0"
        using p0 p1 None Some by (simp add: run_plan_def issued_append)
      ultimately show ?thesis by (simp add: outcome_of_def)
    next
      case x1: None
      have "completed ?ext ?fl ?ss w0 = length ?ss"
        using p1 x1 completed_all [of ?ext ?fl ?ss w0 w1] by (simp add: lc)
      then have reached: "cursor_reached r k w = ?m"
        using cr by (auto simp: length_steps_between cursor_after_def)
      have iss: "issued ?ext ?fl (loop_calls r ?m) w0 = loop_calls r ?m"
        using p1 x1 by (simp add: issued_ok)
      show ?thesis
      proof (cases "length (steps ?fl) \<le> ?m")
        case False
        then have "run r k w = (Returned False, r\<lparr>nextStep := ?m\<rparr>, w1,
            entry_calls r @ loop_calls r ?m)"
          using s1 s2 None x1 reached iss by (simp add: run_def Let_def upTo_def)
        moreover have "replay ?ext ?fl (run_plan r k) w = (None, w1)"
          using p0 p1 None x1 False by (simp add: run_plan_def replay_append)
        moreover have "issued ?ext ?fl (run_plan r k) w = entry_calls r @ loop_calls r ?m"
          using p0 p1 None x1 False by (simp add: run_plan_def issued_append iss)
        ultimately show ?thesis using False reached by (simp add: outcome_of_def)
      next
        case True
        obtain x2 w2 where p2: "perform ?ext ?fl AfterAllSteps w1 = (x2, w2)"
          by (cases "perform ?ext ?fl AfterAllSteps w1")
        have s3: "await_opt AfterAllSteps (map_option (\<lambda>h. h ?fl) (afterAllSteps ?ext))
            (w1, entry_calls r @ loop_calls r ?m)
            = (x2, (w2, (entry_calls r @ loop_calls r ?m) @ after_all_calls ?ext))"
          using p2 by (simp add: await_opt_perform_AA)
        have "run r k w = (outcome_of x2 True, r\<lparr>nextStep := ?m\<rparr>, w2,
            (entry_calls r @ loop_calls r ?m) @ after_all_calls ?ext)"
          using s1 s2 s3 None x1 reached iss True
          by (cases x2) (simp_all add: run_def Let_def upTo_def outcome_of_def)
        moreover have "replay ?ext ?fl (run_plan r k) w = (x2, w2)"
          using p0 p1 p2 None x1 True by (simp add: run_plan_def replay_append replay_after_all)
        moreover have "issued ?ext ?fl (run_plan r k) w
            = (entry_calls r @ loop_calls r ?m) @ after_all_calls ?ext"
          using p0 p1 None x1 True by (simp add: run_plan_def issued_append iss issued_after_all)
        ultimately show ?thesis using True reached by simp
      qed
    qed
  qed
qed

lemma run_plan_fresh: "run_plan (new_Runner fl ext) None = full_log ext fl"
  by (simp add: run_plan_def full_log_def entry_calls_def loop_calls_def cursor_after_None
      steps_between_all)












section \<open>Properties of the resolver\<close>

lemma import_loop_acc:
  "import_loop e ss acc =
     (case import_loop e ss [] of Inl err \<Rightarrow> Inl err | Inr xs \<Rightarrow> Inr (acc @ xs))"
proof (induction ss arbitrary: acc)
  case Nil
  then show ?case by simp
next
  case (Cons s ss)
  show ?case
  proof (cases "importStep e s")
    case (Inl err)
    then show ?thesis by simp
  next
    case (Inr xs)
    then show ?thesis
      using Cons.IH [of "acc @ xs"] Cons.IH [of xs] by (simp split: sum.splits)
  qed
qed

lemma import_loop_append:
  "import_loop e (pre @ post) acc =
     (case import_loop e pre acc of Inl err \<Rightarrow> Inl err | Inr xs \<Rightarrow> import_loop e post xs)"
  by (induction pre arbitrary: acc) (simp_all split: sum.splits)

lemma import_loop_concat:
  assumes "\<forall>s \<in> set ss. \<exists>xs. importStep e s = Inr xs"
  shows "import_loop e ss acc = Inr (acc @ concat (map (spliced e) ss))"
  using assms by (induction ss arbitrary: acc) (auto simp: spliced_def)

lemma import_loop_Inr:
  assumes "import_loop e ss acc = Inr out"
  shows "(\<forall>s \<in> set ss. \<exists>xs. importStep e s = Inr xs) \<and> out = acc @ concat (map (spliced e) ss)"
  using assms
proof (induction ss arbitrary: acc)
  case Nil
  then show ?case by simp
next
  case (Cons s ss)
  then obtain xs where xs: "importStep e s = Inr xs" "import_loop e ss (acc @ xs) = Inr out"
    by (auto split: sum.splits)
  from Cons.IH [OF xs(2)] xs(1) show ?case by (simp add: spliced_def)
qed

lemma import_loop_Inl:
  assumes "importStep e m = Inl err"
  shows "\<exists>err'. import_loop e (pre @ m # post) acc = Inl err'"
    and "\<forall>s \<in> set pre. \<exists>xs. importStep e s = Inr xs \<Longrightarrow>
           import_loop e (pre @ m # post) acc = Inl err"
proof -
  show "\<exists>err'. import_loop e (pre @ m # post) acc = Inl err'"
    using assms by (cases "import_loop e pre acc") (simp_all add: import_loop_append)
  show "import_loop e (pre @ m # post) acc = Inl err"
    if "\<forall>s \<in> set pre. \<exists>xs. importStep e s = Inr xs"
    using assms import_loop_concat [OF that] by (simp add: import_loop_append)
qed

lemma importStep_plain: "\<not> is_import s \<Longrightarrow> importStep e s = Inr [s]"
  by (simp add: importStep_def is_import_def)

lemma spliced_plain: "\<not> is_import s \<Longrightarrow> spliced e s = [s]"
  by (simp add: spliced_def importStep_plain)

lemma concat_spliced_plain: "\<forall>s \<in> set ss. \<not> is_import s \<Longrightarrow> concat (map (spliced e) ss) = ss"
  by (induction ss) (simp_all add: spliced_plain)

lemma field_steps_has_steps: "field ''steps'' j = Some v \<Longrightarrow> has_steps j = Some True"
  by (cases j) simp_all

lemma field_steps_None:
  "field ''steps'' j = None \<Longrightarrow> has_steps j = None \<or> has_steps j = Some False"
  by (cases j) simp_all

lemma importStep_file:
  assumes "field ''type'' m = Some (JStr ''import'')" and "field ''from'' m = Some (JStr ''file'')"
  shows "importStep e m =
     (case try_block e (field ''target'' m) of
        Inl c \<Rightarrow> Inl (ImportError (field ''target'' m) c) | Inr xs \<Rightarrow> Inr xs)"
  using assms by (simp add: importStep_def Let_def)

lemma importStep_unsupported:
  assumes "field ''type'' m = Some (JStr ''import'')" and "field ''from'' m \<noteq> Some (JStr ''file'')"
  shows "importStep e m = Inl (UnsupportedSourceError (field ''from'' m))"
  using assms by (simp add: importStep_def Let_def)

lemma try_block_read_fails:
  "readFile e tgt = Inl msg \<Longrightarrow> try_block e tgt = Inl (ReadFileError msg)"
  by (simp add: try_block_def)

lemma try_block_parse_fails:
  "readFile e tgt = Inr text \<Longrightarrow> JSON_parse e text = Inl msg \<Longrightarrow>
     try_block e tgt = Inl (SyntaxError msg)"
  by (simp add: try_block_def)

lemma try_block_no_steps:
  "readFile e tgt = Inr text \<Longrightarrow> JSON_parse e text = Inr j \<Longrightarrow> field ''steps'' j = None \<Longrightarrow>
     try_block e tgt = Inl (if has_steps j = None then InOperatorTypeError else NoStepsFound tgt)"
  using field_steps_None [of j] by (auto simp: try_block_def)

lemma importSteps_Inl:
  assumes "steps fl = pre @ m # post" and "importStep e m = Inl err"
  shows "\<exists>err'. importSteps e fl = Inl err'"
    and "\<forall>s \<in> set pre. \<exists>xs. importStep e s = Inr xs \<Longrightarrow> importSteps e fl = Inl err"
proof -
  show "\<exists>err'. importSteps e fl = Inl err'"
    using import_loop_Inl(1) [OF assms(2), of pre post "[]"] assms(1)
    by (auto simp: importSteps_def)
  show "importSteps e fl = Inl err" if "\<forall>s \<in> set pre. \<exists>xs. importStep e s = Inr xs"
    using import_loop_Inl(2) [OF assms(2) that, of post "[]"] assms(1)
    by (simp add: importSteps_def)
qed

lemma importStep_marker_Inr:
  assumes "is_import m" and "importStep e m = Inr xs"
  shows "\<exists>text j. readFile e (field ''target'' m) = Inr text \<and> JSON_parse e text = Inr j \<and>
           spread (field ''steps'' j) = Some xs"
proof -
  have ty: "field ''type'' m = Some (JStr ''import'')"
    using assms(1) by (simp add: is_import_def)
  have fr: "field ''from'' m = Some (JStr ''file'')"
    using assms(2) ty by (auto simp: importStep_def Let_def split: if_splits)
  have "try_block e (field ''target'' m) = Inr xs"
    using importStep_file [OF ty fr, of e] assms(2) by (simp split: sum.splits)
  then show ?thesis
    by (auto simp: try_block_def split: sum.splits option.splits bool.splits)
qed

section \<open>Claims about the runner\<close>

text \<open>
  Claim C1, as the code has it. On a freshly constructed runner over a flow with \<open>N\<close>
  steps, \<^verbatim>\<open>run()\<close> with \<^verbatim>\<open>upTo\<close> omitted does what performing the calls of \<open>full_log\<close>
  does: \<^verbatim>\<open>beforeAllSteps\<close>, then for every step in order \<^verbatim>\<open>beforeEachStep\<close>, \<^verbatim>\<open>runStep\<close>,
  \<^verbatim>\<open>afterEachStep\<close>, then \<^verbatim>\<open>afterAllSteps\<close> (the hooks the extension lacks left out),
  each on the state left by the one before. It never returns \<open>false\<close>. It returns
  \<open>true\<close> iff none of these calls is rejected; then its log is \<open>full_log\<close>, so it has
  called \<^verbatim>\<open>runStep\<close> exactly \<open>N\<close> times, once per step in their order and between the
  two per-step hooks, and the cursor is \<open>N\<close>. Otherwise it throws the error of the
  first rejected call, having issued the calls up to and including that one and leaving
  the state that call left.
\<close>

theorem run_fresh_runner:
  assumes "run (new_Runner fl ext) None w = (out, r', w', tr)"
  shows "out = outcome_of (fst (replay ext fl (full_log ext fl) w)) True \<and>
         w' = snd (replay ext fl (full_log ext fl) w) \<and>
         tr = issued ext fl (full_log ext fl) w \<and>
         out \<noteq> Returned False \<and>
         (out = Returned True \<longleftrightarrow> fst (replay ext fl (full_log ext fl) w) = None) \<and>
         (out = Returned True \<longrightarrow>
            tr = full_log ext fl \<and> runStep_calls tr = steps fl \<and>
            beforeEachStep_calls tr = (if beforeEachStep ext = None then [] else steps fl) \<and>
            afterEachStep_calls tr = (if afterEachStep ext = None then [] else steps fl) \<and>
            nextStep r' = length (steps fl)) \<and>
         (\<forall>e. out = Threw e \<longrightarrow>
            tr \<noteq> [] \<and> prefix tr (full_log ext fl) \<and>
            (\<exists>w0. replay ext fl (butlast tr) w = (None, w0) \<and>
                  perform ext fl (last tr) w0 = (Some e, w'))) \<and>
         (never_fails ext \<longrightarrow> out = Returned True)"
proof -
  let ?r = "new_Runner fl ext"
  obtain x w1 where rp: "replay ext fl (full_log ext fl) w = (x, w1)"
    by (cases "replay ext fl (full_log ext fl) w")
  have eq: "out = outcome_of x True" "w' = w1" "tr = issued ext fl (full_log ext fl) w"
    using assms rp run_eq [of ?r None w] by (simp_all add: run_plan_fresh cursor_after_None)
  show ?thesis
  proof (cases x)
    case None
    then have out: "out = Returned True" using eq(1) by (simp add: outcome_of_def)
    have tr: "tr = full_log ext fl" using eq(3) rp None by (simp add: issued_ok)
    have "nextStep r' = length (steps fl)"
      using run_Returned(1) [OF assms [unfolded out]] by (simp add: cursor_after_None)
    moreover have "runStep_calls (full_log ext fl) = steps fl"
      "beforeEachStep_calls (full_log ext fl) = (if beforeEachStep ext = None then [] else steps fl)"
      "afterEachStep_calls (full_log ext fl) = (if afterEachStep ext = None then [] else steps fl)"
      by (simp_all add: full_log_def)
    ultimately show ?thesis
      using out tr rp None eq(2) issued_ok [OF rp [unfolded None]]
      by (simp add: outcome_of_def)
  next
    case (Some e)
    then have out: "out = Threw e" using eq(1) by (simp add: outcome_of_def)
    have "\<not> never_fails ext"
      using rp Some never_fails_replay by fastforce
    then show ?thesis
      using out rp Some eq(2,3) issued_rejected [of ext fl "full_log ext fl" w e w1]
      by (simp add: outcome_of_def)
  qed
qed

theorem run_fresh_runner_witness:
  "run (new_Runner demo_flow counting_extension) None 0 =
     (Returned True, (new_Runner demo_flow counting_extension)\<lparr>nextStep := 3\<rparr>, 11,
      full_log counting_extension demo_flow) \<and>
   replay counting_extension demo_flow (full_log counting_extension demo_flow) 0 = (None, 11) \<and>
   runStep_calls (full_log counting_extension demo_flow) = [''navigate'', ''click'', ''close'']"
proof -
  have h: "run (new_Runner demo_flow counting_extension) None 0 =
     (Returned True, (new_Runner demo_flow counting_extension)\<lparr>nextStep := 3\<rparr>, 11,
      full_log counting_extension demo_flow)"
    by (simp add: run_def new_Runner_def demo_flow_def counting_extension_def run_loop.simps
        run_body_def await_def await_opt_def full_log_def step_calls_def before_all_calls_def
        after_all_calls_def)
  have st: "steps demo_flow = [''navigate'', ''click'', ''close'']"
    by (simp add: demo_flow_def)
  obtain x w1 where rp:
    "replay counting_extension demo_flow (full_log counting_extension demo_flow) 0 = (x, w1)"
    by (cases "replay counting_extension demo_flow (full_log counting_extension demo_flow) 0")
  have "x = None" "w1 = 11"
    "runStep_calls (full_log counting_extension demo_flow) = [''navigate'', ''click'', ''close'']"
    using run_fresh_runner [OF h] rp st by simp_all
  then show ?thesis using h rp by simp
qed

text \<open>
  Claim C1 as stated says that \<^verbatim>\<open>run()\<close> returns \<open>true\<close>, and that it does so if
  \<^verbatim>\<open>runStep\<close> was invoked once per step in order between its hooks. With an extension
  whose \<^verbatim>\<open>afterAllSteps\<close> is rejected all three \<^verbatim>\<open>runStep\<close> calls are made, bracketed and
  in order, and \<^verbatim>\<open>run()\<close> throws.
\<close>

theorem run_throws_after_all_runStep_calls:
  "run (new_Runner demo_flow failing_afterAll_extension) None 0 =
     (Threw ''browser closed'', (new_Runner demo_flow failing_afterAll_extension)\<lparr>nextStep := 3\<rparr>,
      10,
      [BeforeAllSteps,
       BeforeEachStep ''navigate'', RunStep ''navigate'', AfterEachStep ''navigate'',
       BeforeEachStep ''click'', RunStep ''click'', AfterEachStep ''click'',
       BeforeEachStep ''close'', RunStep ''close'', AfterEachStep ''close'',
       AfterAllSteps]) \<and>
   runStep_calls
     [BeforeAllSteps,
      BeforeEachStep ''navigate'', RunStep ''navigate'', AfterEachStep ''navigate'',
      BeforeEachStep ''click'', RunStep ''click'', AfterEachStep ''click'',
      BeforeEachStep ''close'', RunStep ''close'', AfterEachStep ''close'',
      AfterAllSteps] = steps demo_flow"
  by (simp add: run_def new_Runner_def demo_flow_def counting_extension_def
      failing_afterAll_extension_def run_loop.simps run_body_def await_def await_opt_def
      runStep_calls_def)















text \<open>
  Claim C2, as the code has it. Take any invocation of any finite sequence of
  invocations on one runner, with cursor \<open>c\<close> at entry and \<open>c'\<close> at exit. It calls
  \<^verbatim>\<open>beforeAllSteps\<close> once if \<open>c = 0\<close> and the extension has the hook, and not at all
  otherwise. It calls \<^verbatim>\<open>afterAllSteps\<close> at most once; if it returns, it returns \<open>true\<close>
  iff \<open>c'\<close> has reached the number of steps, and it has called \<^verbatim>\<open>afterAllSteps\<close> once
  if it returns \<open>true\<close> and the extension has the hook, and not at all otherwise. The
  first invocation is entered with the cursor of the runner. The
  cursor does not decrease, within the invocation or later: so once an invocation has
  left the cursor above 0 no later one calls \<^verbatim>\<open>beforeAllSteps\<close>, and once an invocation
  has returned \<open>true\<close> no later one returns \<open>false\<close> (each later one that returns calls
  \<^verbatim>\<open>afterAllSteps\<close> again).
\<close>

theorem runs_hooks:
  assumes "runs r ks w = pre @ (c, out, tr, c') # post"
  shows "nextStep r \<le> c \<and> c \<le> c' \<and> (pre = [] \<longrightarrow> c = nextStep r) \<and>
     count_list tr BeforeAllSteps =
       (if c = 0 \<and> beforeAllSteps (extension r) \<noteq> None then 1 else 0) \<and>
     count_list tr AfterAllSteps \<le> 1 \<and>
     (\<forall>b. out = Returned b \<longrightarrow>
        (b \<longleftrightarrow> length (steps (flow r)) \<le> c') \<and>
        count_list tr AfterAllSteps = (if b \<and> afterAllSteps (extension r) \<noteq> None then 1 else 0)) \<and>
     (\<forall>(d, out', tr', d') \<in> set post.
        c' \<le> d \<and>
        (0 < c' \<longrightarrow> count_list tr' BeforeAllSteps = 0) \<and>
        (out = Returned True \<longrightarrow> out' \<noteq> Returned False))"
proof -
  from runs_split [OF assms] obtain r0 w0 k ks' where
    r0: "flow r0 = flow r" "extension r0 = extension r" "nextStep r \<le> nextStep r0"
    and rs: "runs r0 (k # ks') w0 = (c, out, tr, c') # post"
    by blast
  obtain o1 r1 w1 t1 where run1: "run r0 k w0 = (o1, r1, w1, t1)"
    by (metis prod_cases4)
  then have eq: "c = nextStep r0" "out = o1" "tr = t1" "c' = nextStep r1" "post = runs r1 ks' w1"
    using rs by simp_all
  note p = run_preserves [OF run1] and h = run_hooks [OF run1]
  have later: "c' \<le> d \<and> (0 < c' \<longrightarrow> count_list tr' BeforeAllSteps = 0) \<and>
        (out = Returned True \<longrightarrow> out' \<noteq> Returned False)"
    if "(d, out', tr', d') \<in> set post" for d out' tr' d'
  proof -
    note l = runs_later [OF that [unfolded eq(5)]]
    have "length (steps (flow r1)) \<le> nextStep r1" if "out = Returned True"
      using h(3) [of True] that eq(2) p(1) by simp
    then show ?thesis using l eq(4) by auto
  qed
  have start: "c = nextStep r" if "pre = []"
    using assms that by (cases ks) (auto split: prod.splits)
  show ?thesis
    using r0 eq(1-4) p(3) h(1,2,3) later start by auto
qed


theorem runs_hooks_witness:
  "runs (new_Runner demo_flow counting_extension) [Some 0, None, None] 0 =
     [(0, Returned False, [BeforeAllSteps], 0)] @
     (0, Returned True, full_log counting_extension demo_flow, 3) #
     [(3, Returned True, [AfterAllSteps], 3)] \<and>
   count_list (full_log counting_extension demo_flow) BeforeAllSteps = 1 \<and>
   count_list (full_log counting_extension demo_flow) AfterAllSteps = 1"
proof -
  have h: "runs (new_Runner demo_flow counting_extension) [Some 0, None, None] 0 =
     [(0, Returned False, [BeforeAllSteps], 0)] @
     (0, Returned True, full_log counting_extension demo_flow, 3) #
     [(3, Returned True, [AfterAllSteps], 3)]"
    by (simp add: run_def new_Runner_def demo_flow_def counting_extension_def run_loop.simps
        run_body_def await_def await_opt_def full_log_def step_calls_def before_all_calls_def
        after_all_calls_def)
  have e: "beforeAllSteps (extension (new_Runner demo_flow counting_extension)) \<noteq> None"
    "afterAllSteps (extension (new_Runner demo_flow counting_extension)) \<noteq> None"
    by (simp_all add: counting_extension_def)
  have c: "count_list (full_log counting_extension demo_flow) BeforeAllSteps = 1 \<and>
      count_list (full_log counting_extension demo_flow) AfterAllSteps = 1"
    using runs_hooks [OF h] e by auto
  from h c show ?thesis by (rule conjI)
qed

text \<open>
  Claim C2 as stated says that each of the two hooks is invoked exactly once in any
  sequence of invocations. In \<^verbatim>\<open>run(0); run(); run()\<close> on a fresh runner over the
  three-step flow each of them is invoked twice: \<^verbatim>\<open>beforeAllSteps\<close> by the first and the
  second invocation, \<^verbatim>\<open>afterAllSteps\<close> by the second and the third.
\<close>

theorem runs_call_hooks_twice:
  "count_list (calls_of (runs (new_Runner demo_flow counting_extension) [Some 0, None, None] 0))
     BeforeAllSteps = 2 \<and>
   count_list (calls_of (runs (new_Runner demo_flow counting_extension) [Some 0, None, None] 0))
     AfterAllSteps = 2"
  by (simp add: run_def new_Runner_def demo_flow_def counting_extension_def run_loop.simps
      run_body_def await_def await_opt_def)

section \<open>Claims about import resolution\<close>

text \<open>
  Claim C7. Let a flow of the declared type have the steps \<open>pre\<close>, then an import
  marker with source \<^verbatim>\<open>file\<close> and target \<open>f\<close>, then \<open>post\<close>, no step of \<open>pre\<close> and
  \<open>post\<close> being an import marker; let \<open>f\<close> be readable and parse to a value whose
  \<^verbatim>\<open>steps\<close> is the array \<open>xs\<close>. Then resolution succeeds, and gives the same flow with
  the steps \<open>pre\<close>, \<open>xs\<close>, \<open>post\<close> in this order: for \<^verbatim>\<open>[A, import(file=f), B]\<close> and
  \<^verbatim>\<open>[X, Y]\<close> it is \<^verbatim>\<open>[A, X, Y, B]\<close>.
\<close>

theorem importSteps_splices:
  assumes "steps fl = pre @ m # post"
    and "list_all is_ExtStep (steps fl)"
    and "\<forall>s \<in> set pre \<union> set post. \<not> is_import s"
    and "field ''type'' m = Some (JStr ''import'')"
    and "field ''from'' m = Some (JStr ''file'')"
    and "field ''target'' m = Some (JStr f)"
    and "readFile e (Some (JStr f)) = Inr text"
    and "JSON_parse e text = Inr jsonFile"
    and "field ''steps'' jsonFile = Some (JArr xs)"
  shows "importSteps e fl = Inr (fl\<lparr>steps := pre @ xs @ post\<rparr>)"
proof -
  have tb: "try_block e (Some (JStr f)) = Inr xs"
    using assms(7,8,9) field_steps_has_steps [OF assms(9)] by (simp add: try_block_def)
  have m: "importStep e m = Inr xs"
    using importStep_file [OF assms(4,5)] assms(6) tb by simp
  have all: "\<forall>s \<in> set (steps fl). \<exists>ys. importStep e s = Inr ys"
    using assms(1,3) m by (auto simp: importStep_plain)
  have "concat (map (spliced e) (steps fl)) = pre @ xs @ post"
    using assms(1,3) m by (simp add: concat_spliced_plain spliced_def)
  then have "import_loop e (steps fl) [] = Inr (pre @ xs @ post)"
    using import_loop_concat [OF all, of "[]"] by simp
  then show ?thesis by (simp add: importSteps_def)
qed

theorem importSteps_splices_witness:
  "importSteps demo_env (flow_of [step_A, import_marker ''file'' ''login.json'', step_B]) =
     Inr (flow_of [step_A, step_X, step_Y, step_B])"
proof -
  let ?m = "import_marker ''file'' ''login.json''"
  let ?fl = "flow_of [step_A, ?m, step_B]"
  let ?j = "JObj [(''title'', JStr ''login''), (''steps'', JArr [step_X, step_Y])]"
  have 1: "steps ?fl = [step_A] @ ?m # [step_B]" by (simp add: flow_of_def)
  have 2: "list_all is_ExtStep (steps ?fl)"
    by (simp add: flow_of_def step_A_def step_B_def import_marker_def)
  have 3: "\<forall>s \<in> set [step_A] \<union> set [step_B]. \<not> is_import s"
    by (simp add: is_import_def step_A_def step_B_def)
  have 4: "field ''type'' ?m = Some (JStr ''import'')"
    and 5: "field ''from'' ?m = Some (JStr ''file'')"
    and 6: "field ''target'' ?m = Some (JStr ''login.json'')"
    by (simp_all add: import_marker_def)
  have 7: "readFile demo_env (Some (JStr ''login.json'')) = Inr ''<login>''"
    by (simp add: demo_env_def)
  have 8: "JSON_parse demo_env ''<login>'' = Inr ?j"
    by (simp add: demo_env_def)
  have 9: "field ''steps'' ?j = Some (JArr [step_X, step_Y])" by simp
  show ?thesis
    using importSteps_splices [OF 1 2 3 4 5 6 7 8 9] by (simp add: flow_of_def)
qed

text \<open>
  Claim C8. Let a flow of the declared type contain an import marker \<open>m\<close> with source
  \<open>src\<close> and target \<open>t\<close> such that \<open>src\<close> is not \<^verbatim>\<open>file\<close>, or \<open>t\<close> cannot be read, or
  its text cannot be parsed, or the parsed value has no \<^verbatim>\<open>steps\<close>. Then resolution
  fails: the marker is never skipped. If the steps before \<open>m\<close> resolve, the error is
  the one of \<open>m\<close>: the unsupported-source error carrying \<open>src\<close> when \<open>src\<close> is not
  \<^verbatim>\<open>file\<close>; otherwise the import error carrying the target \<open>t\<close> and the cause, which is
  the rejection of \<^verbatim>\<open>readFile\<close>, the \<^verbatim>\<open>SyntaxError\<close> of \<^verbatim>\<open>JSON.parse\<close>, or, for a value
  without \<^verbatim>\<open>steps\<close>, the \<^verbatim>\<open>TypeError\<close> of \<^verbatim>\<open>in\<close> on a value that is not an object and
  the \<^verbatim>\<open>No steps found\<close> error on an object or array.
\<close>

theorem importSteps_fails:
  assumes "steps fl = pre @ m # post"
    and "list_all is_ExtStep (steps fl)"
    and "field ''type'' m = Some (JStr ''import'')"
    and "field ''from'' m = Some (JStr src)"
    and "field ''target'' m = Some (JStr t)"
    and "src \<noteq> ''file'' \<or>
         (\<exists>msg. readFile e (Some (JStr t)) = Inl msg) \<or>
         (\<exists>text msg. readFile e (Some (JStr t)) = Inr text \<and> JSON_parse e text = Inl msg) \<or>
         (\<exists>text j. readFile e (Some (JStr t)) = Inr text \<and> JSON_parse e text = Inr j \<and>
            field ''steps'' j = None)"
  shows "(\<exists>err. importSteps e fl = Inl err) \<and>
         ((\<forall>s \<in> set pre. \<exists>xs. importStep e s = Inr xs) \<longrightarrow>
            (src \<noteq> ''file'' \<longrightarrow>
               importSteps e fl = Inl (UnsupportedSourceError (Some (JStr src)))) \<and>
            (src = ''file'' \<longrightarrow>
               (\<forall>msg. readFile e (Some (JStr t)) = Inl msg \<longrightarrow>
                  importSteps e fl = Inl (ImportError (Some (JStr t)) (ReadFileError msg))) \<and>
               (\<forall>text msg. readFile e (Some (JStr t)) = Inr text \<and> JSON_parse e text = Inl msg \<longrightarrow>
                  importSteps e fl = Inl (ImportError (Some (JStr t)) (SyntaxError msg))) \<and>
               (\<forall>text j. readFile e (Some (JStr t)) = Inr text \<and> JSON_parse e text = Inr j \<and>
                    field ''steps'' j = None \<longrightarrow>
                  importSteps e fl =
                    Inl (ImportError (Some (JStr t))
                          (if has_steps j = None then InOperatorTypeError
                           else NoStepsFound (Some (JStr t)))))))"
proof -
  let ?T = "Some (JStr t)"
  have unsupported: "importStep e m = Inl (UnsupportedSourceError (Some (JStr src)))"
    if "src \<noteq> ''file''"
    using importStep_unsupported [OF assms(3), of e] assms(4) that by simp
  have from_file: "importStep e m = Inl (ImportError ?T c)" if "src = ''file''" "try_block e ?T = Inl c" for c
    using importStep_file [OF assms(3), of e] assms(4,5) that by simp
  have bad: "\<exists>err. importStep e m = Inl err"
  proof (cases "src = ''file''")
    case False
    then show ?thesis using unsupported by blast
  next
    case True
    then have "\<exists>c. try_block e ?T = Inl c"
      using assms(6) try_block_read_fails try_block_parse_fails try_block_no_steps by blast
    then show ?thesis using from_file [OF True] by blast
  qed
  then obtain err where err: "importStep e m = Inl err" ..
  have first: "\<exists>err. importSteps e fl = Inl err"
    using importSteps_Inl(1) [OF assms(1) err] .
  have second: "importSteps e fl = Inl err'"
    if "\<forall>s \<in> set pre. \<exists>xs. importStep e s = Inr xs" "importStep e m = Inl err'" for err'
    using importSteps_Inl(2) [OF assms(1) that(2) that(1)] .
  show ?thesis
    using first second unsupported from_file
      try_block_read_fails [of e ?T] try_block_parse_fails [of e ?T] try_block_no_steps [of e ?T]
    by (intro conjI impI allI) (blast+)
qed


theorem importSteps_fails_witness:
  "importSteps demo_env (flow_of [step_A, import_marker ''file'' ''title.json'', step_B]) =
     Inl (ImportError (Some (JStr ''title.json'')) (NoStepsFound (Some (JStr ''title.json'')))) \<and>
   importSteps demo_env (flow_of [step_A, import_marker ''url'' ''login.json'', step_B]) =
     Inl (UnsupportedSourceError (Some (JStr ''url'')))"
proof -
  let ?j = "JObj [(''title'', JStr ''no steps here'')]"
  have pre: "\<forall>s \<in> set [step_A]. \<exists>xs. importStep demo_env s = Inr xs"
    by (simp add: importStep_def step_A_def)
  have rd: "readFile demo_env (Some (JStr ''title.json'')) = Inr ''<title>''"
    and ps: "JSON_parse demo_env ''<title>'' = Inr ?j"
    and ns: "field ''steps'' ?j = None" and hs: "has_steps ?j \<noteq> None"
    by (simp_all add: demo_env_def)
  have a:
    "steps (flow_of [step_A, import_marker ''file'' ''title.json'', step_B])
       = [step_A] @ import_marker ''file'' ''title.json'' # [step_B]"
    "list_all is_ExtStep (steps (flow_of [step_A, import_marker ''file'' ''title.json'', step_B]))"
    "field ''type'' (import_marker ''file'' ''title.json'') = Some (JStr ''import'')"
    "field ''from'' (import_marker ''file'' ''title.json'') = Some (JStr ''file'')"
    "field ''target'' (import_marker ''file'' ''title.json'') = Some (JStr ''title.json'')"
    by (simp_all add: flow_of_def import_marker_def step_A_def step_B_def)
  have a6: "''file'' \<noteq> ''file'' \<or>
      (\<exists>msg. readFile demo_env (Some (JStr ''title.json'')) = Inl msg) \<or>
      (\<exists>text msg. readFile demo_env (Some (JStr ''title.json'')) = Inr text \<and>
         JSON_parse demo_env text = Inl msg) \<or>
      (\<exists>text j. readFile demo_env (Some (JStr ''title.json'')) = Inr text \<and>
         JSON_parse demo_env text = Inr j \<and> field ''steps'' j = None)"
    using rd ps ns by blast
  have b:
    "steps (flow_of [step_A, import_marker ''url'' ''login.json'', step_B])
       = [step_A] @ import_marker ''url'' ''login.json'' # [step_B]"
    "list_all is_ExtStep (steps (flow_of [step_A, import_marker ''url'' ''login.json'', step_B]))"
    "field ''type'' (import_marker ''url'' ''login.json'') = Some (JStr ''import'')"
    "field ''from'' (import_marker ''url'' ''login.json'') = Some (JStr ''url'')"
    "field ''target'' (import_marker ''url'' ''login.json'') = Some (JStr ''login.json'')"
    by (simp_all add: flow_of_def import_marker_def step_A_def step_B_def)
  have b6: "''url'' \<noteq> ''file'' \<or>
      (\<exists>msg. readFile demo_env (Some (JStr ''login.json'')) = Inl msg) \<or>
      (\<exists>text msg. readFile demo_env (Some (JStr ''login.json'')) = Inr text \<and>
         JSON_parse demo_env text = Inl msg) \<or>
      (\<exists>text j. readFile demo_env (Some (JStr ''login.json'')) = Inr text \<and>
         JSON_parse demo_env text = Inr j \<and> field ''steps'' j = None)"
    by simp
  have "importSteps demo_env (flow_of [step_A, import_marker ''file'' ''title.json'', step_B]) =
      Inl (ImportError (Some (JStr ''title.json'')) (NoStepsFound (Some (JStr ''title.json''))))"
    using importSteps_fails [OF a a6] pre rd ps ns hs by simp
  moreover
  have "importSteps demo_env (flow_of [step_A, import_marker ''url'' ''login.json'', step_B]) =
      Inl (UnsupportedSourceError (Some (JStr ''url'')))"
    using importSteps_fails [OF b b6] pre by simp
  ultimately show ?thesis by (rule conjI)
qed

text \<open>
  Claim C3, as the code has it. When resolution of a flow of the declared type
  succeeds, the result is the given flow with each step replaced by what it
  contributes: a step that is not an import marker by itself, an import marker by the
  elements of the \<^verbatim>\<open>steps\<close> of the value its file parses to, as they are. So an import
  marker among the resolved steps is never a step of the input flow: it is an element
  spliced in from a file; and the resolved flow has no import marker when no imported
  \<^verbatim>\<open>steps\<close> has one.
\<close>

theorem importSteps_markers:
  assumes "importSteps e fl = Inr fl'" and "list_all is_ExtStep (steps fl)"
  shows "fl' = fl\<lparr>steps := concat (map (spliced e) (steps fl))\<rparr> \<and>
         (\<forall>s \<in> set (steps fl). \<not> is_import s \<longrightarrow> spliced e s = [s]) \<and>
         (\<forall>m \<in> set (steps fl). is_import m \<longrightarrow>
            (\<exists>text j. readFile e (field ''target'' m) = Inr text \<and> JSON_parse e text = Inr j \<and>
               spread (field ''steps'' j) = Some (spliced e m))) \<and>
         (\<forall>x \<in> set (steps fl'). is_import x \<longrightarrow>
            (\<exists>m \<in> set (steps fl). is_import m \<and> x \<in> set (spliced e m))) \<and>
         ((\<forall>m \<in> set (steps fl). is_import m \<longrightarrow> (\<forall>x \<in> set (spliced e m). \<not> is_import x)) \<longrightarrow>
            (\<forall>x \<in> set (steps fl'). \<not> is_import x))"
proof -
  obtain out where out: "import_loop e (steps fl) [] = Inr out" and fl': "fl' = fl\<lparr>steps := out\<rparr>"
    using assms(1) by (auto simp: importSteps_def split: sum.splits)
  note l = import_loop_Inr [OF out]
  have st: "steps fl' = concat (map (spliced e) (steps fl))"
    using l fl' by simp
  have plain: "\<forall>s \<in> set (steps fl). \<not> is_import s \<longrightarrow> spliced e s = [s]"
    by (simp add: spliced_plain)
  have marker: "\<exists>text j. readFile e (field ''target'' m) = Inr text \<and> JSON_parse e text = Inr j \<and>
      spread (field ''steps'' j) = Some (spliced e m)"
    if m: "m \<in> set (steps fl)" "is_import m" for m
  proof -
    have "\<forall>s \<in> set (steps fl). \<exists>xs. importStep e s = Inr xs"
      using l by (rule conjunct1)
    then obtain xs where xs: "importStep e m = Inr xs"
      using m(1) by blast
    then have "spliced e m = xs" by (simp add: spliced_def)
    then show ?thesis using importStep_marker_Inr [OF m(2) xs] by simp
  qed
  have origin: "\<exists>m \<in> set (steps fl). is_import m \<and> x \<in> set (spliced e m)"
    if x: "x \<in> set (steps fl')" "is_import x" for x
  proof -
    have "x \<in> set (concat (map (spliced e) (steps fl)))"
      using x(1) by (simp only: st)
    then obtain s where s: "s \<in> set (steps fl)" "x \<in> set (spliced e s)"
      by auto
    have "is_import s"
    proof (rule ccontr)
      assume "\<not> is_import s"
      then have "spliced e s = [s]" by (rule spliced_plain)
      then have "x = s" using s(2) by simp
      then show False using x(2) \<open>\<not> is_import s\<close> by simp
    qed
    then show ?thesis using s by blast
  qed
  have clean: "\<forall>x \<in> set (steps fl'). \<not> is_import x"
    if "\<forall>m \<in> set (steps fl). is_import m \<longrightarrow> (\<forall>x \<in> set (spliced e m). \<not> is_import x)"
    using origin that by blast
  have eq: "fl' = fl\<lparr>steps := concat (map (spliced e) (steps fl))\<rparr>"
    using fl' l by simp
  have marker': "\<forall>m \<in> set (steps fl). is_import m \<longrightarrow>
      (\<exists>text j. readFile e (field ''target'' m) = Inr text \<and> JSON_parse e text = Inr j \<and>
         spread (field ''steps'' j) = Some (spliced e m))"
    using marker by blast
  have origin': "\<forall>x \<in> set (steps fl'). is_import x \<longrightarrow>
      (\<exists>m \<in> set (steps fl). is_import m \<and> x \<in> set (spliced e m))"
    using origin by blast
  from eq plain marker' origin' clean show ?thesis
    by (intro conjI impI) assumption+
qed



theorem importSteps_markers_witness:
  "importSteps demo_env (flow_of [step_A, import_marker ''file'' ''login.json'', step_B]) =
     Inr (flow_of [step_A, step_X, step_Y, step_B]) \<and>
   spliced demo_env (import_marker ''file'' ''login.json'') = [step_X, step_Y] \<and>
   map is_import [step_A, step_X, step_Y, step_B] = [False, False, False, False]"
proof -
  let ?fl = "flow_of [step_A, import_marker ''file'' ''login.json'', step_B]"
  have h: "importSteps demo_env ?fl = Inr (flow_of [step_A, step_X, step_Y, step_B])"
    by (simp add: importSteps_def importStep_def try_block_def demo_env_def flow_of_def
        step_A_def step_B_def import_marker_def)
  have t: "list_all is_ExtStep (steps ?fl)"
    by (simp add: flow_of_def step_A_def step_B_def import_marker_def)
  have sp: "spliced demo_env (import_marker ''file'' ''login.json'') = [step_X, step_Y]"
    by (simp add: spliced_def importStep_def try_block_def demo_env_def import_marker_def)
  have xy: "\<not> is_import step_X" "\<not> is_import step_Y"
    by (simp_all add: is_import_def step_X_def step_Y_def)
  have st: "steps ?fl = [step_A, import_marker ''file'' ''login.json'', step_B]"
    "steps (flow_of [step_A, step_X, step_Y, step_B]) = [step_A, step_X, step_Y, step_B]"
    by (simp_all add: flow_of_def)
  have ab: "\<not> is_import step_A" "\<not> is_import step_B"
    by (simp_all add: is_import_def step_A_def step_B_def)
  have clean: "\<forall>m \<in> set (steps ?fl). is_import m \<longrightarrow> (\<forall>x \<in> set (spliced demo_env m). \<not> is_import x)"
    by (simp add: st(1) sp xy ab)
  have "\<forall>x \<in> set (steps (flow_of [step_A, step_X, step_Y, step_B])). \<not> is_import x"
    using importSteps_markers [OF h t, THEN conjunct2, THEN conjunct2, THEN conjunct2, THEN conjunct2]
      clean by (rule mp)
  then have "map is_import [step_A, step_X, step_Y, step_B] = [False, False, False, False]"
    by (simp add: st(2))
  with h sp show ?thesis by (intro conjI)
qed

text \<open>
  Claim C3 as stated says that no element of a resolved flow is an import marker,
  spliced elements included. The file \<open>nested.json\<close> has a \<^verbatim>\<open>steps\<close> array whose
  element is an import marker; resolving \<^verbatim>\<open>[A, import(file=nested.json), B]\<close> succeeds
  and leaves that marker at index 1 of the result.
\<close>

theorem importSteps_keeps_nested_marker:
  "list_all is_ExtStep (steps (flow_of [step_A, import_marker ''file'' ''nested.json'', step_B])) \<and>
   importSteps demo_env (flow_of [step_A, import_marker ''file'' ''nested.json'', step_B]) =
     Inr (flow_of [step_A, import_marker ''file'' ''login.json'', step_B]) \<and>
   is_import (steps (flow_of [step_A, import_marker ''file'' ''login.json'', step_B]) ! 1)"
  by (simp add: importSteps_def importStep_def try_block_def demo_env_def flow_of_def
      step_A_def step_B_def import_marker_def is_import_def)

end
